theory Spec2Isabelle
  imports Complex_Main
begin

section \<open>Data model (types.ts)\<close>

datatype TaskStatus = PENDING | IN_PROGRESS | REVIEW | COMPLETED

datatype Severity = Info | Success | Error | Warning

datatype Priority = Low | Medium | High

text \<open>
  \<^verbatim>\<open>LogEntry\<close>: the field \<^verbatim>\<open>type\<close> of the source is called \<open>severity\<close> here.
  Timestamps are readings of \<^verbatim>\<open>Date.now()\<close>, in milliseconds. Every operation below
  takes the reading as its parameter \<open>now\<close>, one reading for each event.
\<close>

type_synonym Time = int

record LogEntry =
  timestamp :: Time
  message :: string
  severity :: Severity

text \<open>
  \<^verbatim>\<open>Task\<close>: the field \<^verbatim>\<open>id\<close> is called \<open>task_id\<close>. The source types \<^verbatim>\<open>progress\<close> as
  a JavaScript number; the engine only ever adds integers to it, so it is an integer here.
\<close>

record Task =
  task_id :: string
  title :: string
  description :: string
  status :: TaskStatus
  priority :: Priority
  logs :: "LogEntry list"
  progress :: int
  fileChanges :: "string list option"

text \<open>The task object that \<^verbatim>\<open>generatePlan\<close> builds from a task skeleton and a fresh id.\<close>

definition plannedTask :: "string \<Rightarrow> string \<Rightarrow> string \<Rightarrow> Priority \<Rightarrow> Task" where
  "plannedTask i t d p =
    \<lparr>task_id = i, title = t, description = d, status = PENDING, priority = p, logs = [],
     progress = 0, fileChanges = Some []\<rparr>"

text \<open>
  The tasks and the goal of \<^verbatim>\<open>getDemoState\<close>. \<open>uuid\<close> gives the five results of
  \<^verbatim>\<open>crypto.randomUUID()\<close>, \<open>now\<close> is the reading of the clock.
\<close>

definition getDemoState :: "(nat \<Rightarrow> string) \<Rightarrow> Time \<Rightarrow> Task list \<times> string" where
  "getDemoState uuid now =
    ([\<lparr>task_id = uuid 0, title = ''Initialize Repository & Config'',
       description = ''Setup git, tsconfig, and linting rules'', status = COMPLETED,
       priority = High,
       logs = [\<lparr>timestamp = now - 120000, message = ''Initialized git repository'',
                severity = Success\<rparr>],
       progress = 100, fileChanges = Some [''tsconfig.json'', ''.gitignore'']\<rparr>,
      \<lparr>task_id = uuid 1, title = ''Core Service Architecture'',
       description = ''Implement base service classes and DI container'', status = COMPLETED,
       priority = High,
       logs = [\<lparr>timestamp = now - 60000, message = ''Service container registered'',
                severity = Success\<rparr>],
       progress = 100, fileChanges = Some [''src/services/base.ts'']\<rparr>,
      \<lparr>task_id = uuid 2, title = ''Implement API Routes'',
       description = ''Create RESTful endpoints for the main resource'', status = IN_PROGRESS,
       priority = High,
       logs = [\<lparr>timestamp = now, message = ''Compiling route handlers...'', severity = Info\<rparr>],
       progress = 42, fileChanges = Some [''src/routes/api.ts'']\<rparr>,
      \<lparr>task_id = uuid 3, title = ''Frontend Integration'',
       description = ''Connect React frontend to the new API'', status = PENDING,
       priority = Medium, logs = [], progress = 0, fileChanges = Some []\<rparr>,
      \<lparr>task_id = uuid 4, title = ''E2E Testing'',
       description = ''Run full suite of Cypress tests'', status = PENDING,
       priority = Medium, logs = [], progress = 0, fileChanges = Some []\<rparr>],
     ''DEMO: Refactor Legacy API (Simulation)'')"

section \<open>The global log buffer (addLog)\<close>

text \<open>\<^verbatim>\<open>prev.slice(-n)\<close>: the last \<open>n\<close> elements, the whole array when it is shorter.\<close>

definition slice_last :: "nat \<Rightarrow> 'a list \<Rightarrow> 'a list" where
  "slice_last n xs = drop (length xs - n) xs"

text \<open>The state updater of \<^verbatim>\<open>addLog\<close>: \<^verbatim>\<open>prev => [...prev.slice(-99), entry]\<close>.\<close>

definition appendLog :: "'a \<Rightarrow> 'a list \<Rightarrow> 'a list" where
  "appendLog entry prev = slice_last 99 prev @ [entry]"

text \<open>A sequence of appends, oldest first.\<close>

definition appendLogs :: "'a list \<Rightarrow> 'a list \<Rightarrow> 'a list" where
  "appendLogs entries buf = foldl (\<lambda>b e. appendLog e b) buf entries"

text \<open>
  An entry of the global log as the component holds it. \<^verbatim>\<open>addLog\<close> builds the object
  \<^verbatim>\<open>{timestamp: Date.now(), message, type}\<close> from the message it is given. The handlers of
  the component give it text: \<open>Line\<close>. The message handler of the feed passes on
  \<^verbatim>\<open>data.log.message\<close> unchecked, which can be \<^verbatim>\<open>undefined\<close>: \<open>NoMessage\<close>, with the
  timestamp and the type of the entry.
\<close>

datatype LogLine = Line LogEntry | NoMessage Time Severity

fun lineMessage :: "LogLine \<Rightarrow> string option" where
  "lineMessage (Line e) = Some (message e)"
| "lineMessage (NoMessage t ty) = None"

fun lineSeverity :: "LogLine \<Rightarrow> Severity" where
  "lineSeverity (Line e) = severity e"
| "lineSeverity (NoMessage t ty) = ty"

section \<open>The updater of the simulation tick\<close>

text \<open>\<^verbatim>\<open>Array.prototype.findIndex\<close>; \<open>None\<close> stands for the result \<^verbatim>\<open>-1\<close>.\<close>

fun findIndex :: "('a \<Rightarrow> bool) \<Rightarrow> 'a list \<Rightarrow> nat option" where
  "findIndex P [] = None"
| "findIndex P (x # xs) = (if P x then Some 0 else map_option Suc (findIndex P xs))"

text \<open>
  The updater passed to \<^verbatim>\<open>setTasks\<close> calls other setters while it computes the new
  array. They are returned as a list of effects, in program order, next to the new array.
\<close>

datatype Effect =
    SetActiveTaskId "string option"
  | DeferStop
  | AddLog string Severity

text \<open>\<^verbatim>\<open>Math.floor(Math.random() * 15) + 5\<close>, for a draw \<open>r\<close> of \<^verbatim>\<open>Math.random()\<close>.\<close>

definition increment_of :: "rat \<Rightarrow> int" where
  "increment_of r = \<lfloor>r * 15\<rfloor> + 5"

text \<open>
  The updater itself. \<open>running\<close> is the value of \<^verbatim>\<open>isRunning\<close> that the interval callback
  closed over, \<open>increment\<close> the increment drawn in the advancing branch.
\<close>

definition tickUpdater :: "bool \<Rightarrow> int \<Rightarrow> Task list \<Rightarrow> Task list \<times> Effect list" where
  "tickUpdater running increment prevTasks =
    (case findIndex (\<lambda>t. status t = IN_PROGRESS) prevTasks of
       None \<Rightarrow>
         (case findIndex (\<lambda>t. status t = PENDING) prevTasks of
            Some i \<Rightarrow>
              (prevTasks[i := (prevTasks ! i)\<lparr>status := IN_PROGRESS, progress := 5\<rparr>],
               [SetActiveTaskId (Some (task_id (prevTasks ! i)))])
          | None \<Rightarrow>
              if list_all (\<lambda>t. status t = COMPLETED) prevTasks \<and> running
              then (prevTasks,
                    [DeferStop, SetActiveTaskId None,
                     AddLog ''All tasks completed successfully.'' Success])
              else (prevTasks, []))
     | Some i \<Rightarrow>
         (let currentTask = prevTasks ! i;
              newProgress = min (progress currentTask + increment) 100
          in if newProgress \<ge> 100
             then (prevTasks[i := currentTask\<lparr>progress := newProgress, status := COMPLETED\<rparr>],
                   [SetActiveTaskId None])
             else (prevTasks[i := currentTask\<lparr>progress := newProgress\<rparr>], [])))"

text \<open>The index the updater works on: the first task in progress, else the first pending one.\<close>

definition selectedIndex :: "Task list \<Rightarrow> nat option" where
  "selectedIndex ts =
    (case findIndex (\<lambda>t. status t = IN_PROGRESS) ts of
       Some i \<Rightarrow> Some i
     | None \<Rightarrow> findIndex (\<lambda>t. status t = PENDING) ts)"

definition progress_ok :: "Task list \<Rightarrow> bool" where
  "progress_ok ts = list_all (\<lambda>t. 0 \<le> progress t \<and> progress t \<le> 100) ts"

definition in_progress_count :: "Task list \<Rightarrow> nat" where
  "in_progress_count ts = length (filter (\<lambda>t. status t = IN_PROGRESS) ts)"

section \<open>The App component: state, refs and what the callbacks close over\<close>

text \<open>
  The values an interval callback closes over: the \<^verbatim>\<open>tasks\<close>, \<^verbatim>\<open>activeTaskId\<close> and
  \<^verbatim>\<open>isRunning\<close> of the render whose effect installed the interval.
\<close>

record Closure =
  c_tasks :: "Task list"
  c_activeTaskId :: "string option"
  c_isRunning :: bool

text \<open>The result of \<^verbatim>\<open>generateTaskLog\<close>.\<close>

record LogData =
  ld_message :: string
  ld_type :: Severity

text \<open>
  A tick suspended at \<^verbatim>\<open>await generateTaskLog(currentTask)\<close>: its continuation still
  holds the \<^verbatim>\<open>activeTaskId\<close> and the \<^verbatim>\<open>currentTask\<close> it had when it was suspended.
\<close>

record Request =
  r_activeTaskId :: string
  r_currentTask :: Task

datatype ReadyState = CONNECTING | OPEN | CLOSING | CLOSED

text \<open>
  A browser WebSocket made by \<^verbatim>\<open>connectToSocket\<close>. Its four callbacks are created inside
  \<^verbatim>\<open>handleConnect\<close>, so they close over the \<^verbatim>\<open>connectionUrl\<close> and the \<^verbatim>\<open>isRealtime\<close> of
  the render in which \<^verbatim>\<open>handleConnect\<close> was called: \<open>ws_url\<close> and \<open>ws_isRealtime\<close>.
\<close>

record WebSocket =
  ws_url :: string
  readyState :: ReadyState
  ws_isRealtime :: bool

text \<open>
  The component state (\<^verbatim>\<open>useState\<close>), its two refs, and the part of the environment the
  handlers act on: the sockets created so far (\<open>socketRef\<close> is an index into them), the
  interval installed by the effect, the suspended tick, the lines written with
  \<^verbatim>\<open>console.error\<close>. \<open>tasksRef\<close> stands for the identity of the \<^verbatim>\<open>tasks\<close> array (every
  \<^verbatim>\<open>setTasks\<close> installs a new array) and \<open>effectDeps\<close> for the dependency values of the
  last run of the effect. The UI-only states \<^verbatim>\<open>mode\<close> and \<^verbatim>\<open>showTerminal\<close> are left out.

  The feed can put values into the state that are not of the declared type of the state:
  the message handler takes \<^verbatim>\<open>data: any\<close> and passes \<^verbatim>\<open>data.projectGoal\<close> to \<^verbatim>\<open>setGoal\<close>
  and \<^verbatim>\<open>data.tasks\<close> to \<^verbatim>\<open>setTasks\<close> unchecked. So the goal is a text or some other value
  (\<open>GoalOther\<close>), and \<open>tasksOther\<close> says that the \<^verbatim>\<open>tasks\<close> state holds a value that is not
  an array; the field \<open>tasks\<close> means nothing then. The component is in such a state only
  between the message handler and the render that follows it: the render evaluates
  \<^verbatim>\<open>tasks.filter(...)\<close> (line 262), which throws on a value that is not an array, and
  React removes a component whose render throws: \<open>unmounted\<close>.
\<close>

datatype GoalValue = GoalText string | GoalOther

record App =
  goal :: GoalValue
  connectionUrl :: string
  tasks :: "Task list"
  isRunning :: bool
  isProcessing :: bool
  isRealtime :: bool
  activeTaskId :: "string option"
  globalLogs :: "LogLine list"
  processingRef :: bool
  socketRef :: "nat option"
  sockets :: "WebSocket list"
  timer :: "Closure option"
  inflight :: "Request option"
  console :: "string list"
  tasksRef :: nat
  effectDeps :: "(bool \<times> bool \<times> string option \<times> nat) option"
  tasksOther :: bool
  unmounted :: bool

definition initialApp :: App where
  "initialApp =
    \<lparr>goal = GoalText '''', connectionUrl = ''ws://localhost:8080'', tasks = [],
     isRunning = False, isProcessing = False, isRealtime = False, activeTaskId = None,
     globalLogs = [], processingRef = False, socketRef = None, sockets = [], timer = None,
     inflight = None, console = [], tasksRef = 0, effectDeps = Some (False, False, None, 0),
     tasksOther = False, unmounted = False\<rparr>"

text \<open>JavaScript truthiness of a \<^verbatim>\<open>string | null\<close>: \<^verbatim>\<open>null\<close> and the empty string are falsy.\<close>

definition truthy :: "string option \<Rightarrow> bool" where
  "truthy v = (case v of None \<Rightarrow> False | Some x \<Rightarrow> x \<noteq> '''')"

definition addLog :: "Time \<Rightarrow> string \<Rightarrow> Severity \<Rightarrow> App \<Rightarrow> App" where
  "addLog now msg ty s =
    s\<lparr>globalLogs :=
        appendLog (Line \<lparr>timestamp = now, message = msg, severity = ty\<rparr>) (globalLogs s)\<rparr>"

text \<open>\<^verbatim>\<open>addLog(undefined, type)\<close>: the entry it builds has no message.\<close>

definition addLog_undefined :: "Time \<Rightarrow> Severity \<Rightarrow> App \<Rightarrow> App" where
  "addLog_undefined now ty s = s\<lparr>globalLogs := appendLog (NoMessage now ty) (globalLogs s)\<rparr>"

definition setTasks :: "Task list \<Rightarrow> App \<Rightarrow> App" where
  "setTasks ts s = s\<lparr>tasks := ts, tasksRef := Suc (tasksRef s)\<rparr>"

subsection \<open>The simulation effect and re-rendering\<close>

text \<open>
  How the component runs. JavaScript runs one handler at a time, to its end or to its next
  \<^verbatim>\<open>await\<close>. The state updates a handler asks for are applied together when it is done,
  each updater function once, on the state as it is then. The component then renders, and
  the effect runs if one of its dependencies has changed, all before the next event is
  handled. So every operation below is one handler followed by \<open>flush\<close>.

  One run of the effect \<^verbatim>\<open>useEffect(..., [isRunning, isRealtime, activeTaskId, tasks, addLog])\<close>,
  after the cleanup of the previous run (\<^verbatim>\<open>clearInterval\<close>).
\<close>

definition effect :: "Time \<Rightarrow> App \<Rightarrow> App" where
  "effect now s =
    (let s0 = s\<lparr>timer := None\<rparr> in
     if isRunning s0 \<and> \<not> isRealtime s0 then
       if list_all (\<lambda>t. status t = COMPLETED) (tasks s0) \<and> length (tasks s0) > 0
       then s0\<lparr>isRunning := False\<rparr>
       else
         (let s1 = (if \<not> processingRef s0
                    then addLog now ''Conductor simulation engine started.'' Success s0
                    else s0)
          in s1\<lparr>timer := Some \<lparr>c_tasks = tasks s0, c_activeTaskId = activeTaskId s0,
                                c_isRunning = isRunning s0\<rparr>\<rparr>)
     else if \<not> isRunning s0 then
       (if truthy (activeTaskId s0) then s0\<lparr>activeTaskId := None\<rparr> else s0)
     else s0)"

definition deps :: "App \<Rightarrow> bool \<times> bool \<times> string option \<times> nat" where
  "deps s = (isRunning s, isRealtime s, activeTaskId s, tasksRef s)"

text \<open>A render: the effect runs again when one of its dependencies has changed.\<close>

definition render :: "Time \<Rightarrow> App \<Rightarrow> App" where
  "render now s =
    (if effectDeps s = Some (deps s) then s
     else effect now (s\<lparr>effectDeps := Some (deps s)\<rparr>))"

text \<open>
  React renders again while the effect keeps changing state. The effect can clear
  \<^verbatim>\<open>isRunning\<close> once and then \<^verbatim>\<open>activeTaskId\<close> once, so three renders reach the fixed
  point (lemma \<open>render_flush\<close> below).
\<close>

definition flush :: "Time \<Rightarrow> App \<Rightarrow> App" where
  "flush now s = render now (render now (render now s))"

text \<open>A state in which the effect has run for the current values of its dependencies.\<close>

definition stable :: "App \<Rightarrow> bool" where
  "stable s = (effectDeps s = Some (deps s))"

subsection \<open>The interval callback\<close>

fun applyEffect :: "Time \<Rightarrow> Effect \<Rightarrow> App \<Rightarrow> App" where
  "applyEffect now (SetActiveTaskId v) s = s\<lparr>activeTaskId := v\<rparr>"
| "applyEffect now DeferStop s = s"
| "applyEffect now (AddLog msg ty) s = addLog now msg ty s"

definition applyEffects :: "Time \<Rightarrow> Effect list \<Rightarrow> App \<Rightarrow> App" where
  "applyEffects now effs s = foldl (\<lambda>a e. applyEffect now e a) s effs"

text \<open>
  The log request of a tick, decided on the values the callback closed over:
  \<^verbatim>\<open>if (activeTaskId) { const currentTask = tasks.find(...); if (currentTask && ...) ...\<close>.
\<close>

definition logRequest :: "Closure \<Rightarrow> Request option" where
  "logRequest c =
    (case c_activeTaskId c of
       None \<Rightarrow> None
     | Some aid \<Rightarrow>
         if aid = '''' then None
         else (case find (\<lambda>t. task_id t = aid) (c_tasks c) of
                 None \<Rightarrow> None
               | Some currentTask \<Rightarrow>
                   if status currentTask = IN_PROGRESS
                   then Some \<lparr>r_activeTaskId = aid, r_currentTask = currentTask\<rparr>
                   else None))"

text \<open>
  One firing of the interval, with the increment it draws. Without an interval, or while
  \<^verbatim>\<open>processingRef.current\<close> is set, nothing happens. Otherwise the updater runs on the
  current tasks; then either the callback is suspended at the \<^verbatim>\<open>await\<close> (the request is
  in flight and \<^verbatim>\<open>processingRef.current\<close> stays set) or it clears the flag and returns.
  The component renders, and a stop deferred with \<^verbatim>\<open>setTimeout(..., 0)\<close> runs after that.
\<close>

definition tick :: "int \<Rightarrow> Time \<Rightarrow> App \<Rightarrow> App" where
  "tick increment now s =
    (case timer s of
       None \<Rightarrow> s
     | Some c \<Rightarrow>
         if processingRef s then s
         else
           (let (newTasks, effs) = tickUpdater (c_isRunning c) increment (tasks s);
                s1 = applyEffects now effs (setTasks newTasks (s\<lparr>processingRef := True\<rparr>));
                s2 = (case logRequest c of
                        Some r \<Rightarrow> s1\<lparr>inflight := Some r\<rparr>
                      | None \<Rightarrow> s1\<lparr>processingRef := False\<rparr>);
                s3 = flush now s2
            in if DeferStop \<in> set effs then flush now (s3\<lparr>isRunning := False\<rparr>) else s3))"

text \<open>
  The continuation of a suspended tick, when \<^verbatim>\<open>generateTaskLog\<close> has returned \<open>logData\<close>:
  lines 203 to 213 of the component.
\<close>

definition logArrives :: "LogData \<Rightarrow> Time \<Rightarrow> App \<Rightarrow> App" where
  "logArrives logData now s =
    (case inflight s of
       None \<Rightarrow> s
     | Some r \<Rightarrow>
         (let entry = \<lparr>timestamp = now, message = ld_message logData,
                       severity = ld_type logData\<rparr>;
              s1 = setTasks
                     (map (\<lambda>t. if task_id t = r_activeTaskId r
                                then t\<lparr>logs := logs t @ [entry]\<rparr> else t) (tasks s)) s;
              s2 = addLog now (''['' @ title (r_currentTask r) @ ''] '' @ ld_message logData)
                     (ld_type logData) s1
          in flush now (s2\<lparr>processingRef := False, inflight := None\<rparr>)))"

subsection \<open>The feed: connectToSocket and the callbacks of handleConnect\<close>

text \<open>
  What the message handler reads of a parsed payload. The handler takes \<^verbatim>\<open>data: any\<close> and
  tests the four properties \<^verbatim>\<open>tasks\<close>, \<^verbatim>\<open>log\<close>, \<^verbatim>\<open>logs\<close> and \<^verbatim>\<open>projectGoal\<close> for truthiness
  only (\<^verbatim>\<open>logs\<close> also with \<^verbatim>\<open>Array.isArray\<close>), so for each property the payload is
  distinguished by what the handler does with it:

    \<^item> \<^verbatim>\<open>data.tasks\<close>: absent or falsy (\<^verbatim>\<open>null\<close>, \<^verbatim>\<open>false\<close>, \<^verbatim>\<open>0\<close>, the empty string); an
      array, whose elements are taken to be tasks; or a truthy value that is not an array
      (a number, a text, \<^verbatim>\<open>true\<close>, an object), on which \<^verbatim>\<open>data.tasks.find\<close> is not a
      function;
    \<^item> \<^verbatim>\<open>data.log\<close>: absent or falsy; an object, with its \<^verbatim>\<open>message\<close> if it has one and its
      \<^verbatim>\<open>type\<close> if it has a truthy one; or a truthy value that is not an object, whose
      \<^verbatim>\<open>message\<close> and \<^verbatim>\<open>type\<close> are \<^verbatim>\<open>undefined\<close>;
    \<^item> \<^verbatim>\<open>data.logs\<close>: an array, whose elements are taken to be log objects with both
      fields; \<open>None\<close> for anything else;
    \<^item> \<^verbatim>\<open>data.projectGoal\<close>: absent or falsy; a text; or a truthy value that is not a text.

  A parsed value is \<^verbatim>\<open>null\<close>, on which every property access throws, or a value with these
  four properties; numbers, texts, booleans and arrays have none of them. The elements of
  an array and the fields of a task are read at their declared types: a payload that is
  ill-formed only below the top of a property (an array of numbers as \<^verbatim>\<open>tasks\<close>, a number
  as the \<^verbatim>\<open>message\<close> of a log object) is not represented.
\<close>

datatype TasksField = TasksAbsent | TasksArray "Task list" | TasksOther

datatype LogField = LogAbsent | LogObject "string option" "Severity option" | LogOther

datatype GoalField = GoalAbsent | GoalString string | GoalNonString

record FeedData =
  d_tasks :: TasksField
  d_log :: LogField
  d_logs :: "(string \<times> Severity) list option"
  d_projectGoal :: GoalField

datatype Json = JNull | JValue FeedData

datatype JsError = TypeError | SyntaxError

text \<open>
  What a call has done when it is over: it has returned, or it has thrown; either way
  with the state updates it has asked for until then.
\<close>

datatype Outcome = Returned App | Threw JsError App

text \<open>
  The first callback of \<^verbatim>\<open>handleConnect\<close> (lines 62 to 79). On \<^verbatim>\<open>null\<close> the first property
  access throws. On a truthy \<^verbatim>\<open>data.tasks\<close> that is not an array, \<^verbatim>\<open>setTasks(data.tasks)\<close>
  has been called when \<^verbatim>\<open>data.tasks.find\<close> throws, and the rest of the handler is skipped.
\<close>

definition onMessage :: "Time \<Rightarrow> Json \<Rightarrow> App \<Rightarrow> Outcome" where
  "onMessage now data s =
    (case data of
       JNull \<Rightarrow> Threw TypeError s
     | JValue d \<Rightarrow>
         if d_tasks d = TasksOther
         then Threw TypeError (s\<lparr>tasksOther := True, tasksRef := Suc (tasksRef s)\<rparr>)
         else
           (let s1 = (case d_tasks d of
                        TasksArray ts \<Rightarrow>
                          (setTasks ts s)\<lparr>activeTaskId :=
                             (case find (\<lambda>t. status t = IN_PROGRESS) ts of
                                Some active \<Rightarrow> Some (task_id active)
                              | None \<Rightarrow> None)\<rparr>
                      | _ \<Rightarrow> s);
                s2 = (case d_log d of
                        LogAbsent \<Rightarrow> s1
                      | LogObject m ty \<Rightarrow>
                          (let ty' = (case ty of None \<Rightarrow> Info | Some t \<Rightarrow> t)
                           in case m of
                                Some msg \<Rightarrow> addLog now msg ty' s1
                              | None \<Rightarrow> addLog_undefined now ty' s1)
                      | LogOther \<Rightarrow> addLog_undefined now Info s1);
                s3 = (case d_logs d of
                        None \<Rightarrow> s2
                      | Some ls \<Rightarrow> foldl (\<lambda>a (m, ty). addLog now m ty a) s2 ls);
                s4 = (case d_projectGoal d of
                        GoalAbsent \<Rightarrow> s3
                      | GoalString g \<Rightarrow> if g = '''' then s3 else s3\<lparr>goal := GoalText g\<rparr>
                      | GoalNonString \<Rightarrow> s3\<lparr>goal := GoalOther\<rparr>)
            in Returned s4))"

text \<open>
  \<^verbatim>\<open>ws.onmessage\<close> of \<^verbatim>\<open>connectToSocket\<close>. The result of \<^verbatim>\<open>JSON.parse(event.data)\<close> is the
  parameter \<open>parsed\<close>, \<open>None\<close> when it throws. Both a parse error and an exception of the
  handler end in the \<^verbatim>\<open>catch\<close>, which writes to the console; the state updates the
  handler has asked for before it threw stay asked for.
\<close>

definition ws_onmessage :: "Time \<Rightarrow> Json option \<Rightarrow> App \<Rightarrow> App" where
  "ws_onmessage now parsed s =
    (case parsed of
       None \<Rightarrow> s\<lparr>console := console s @ [''Failed to parse WebSocket message'']\<rparr>
     | Some data \<Rightarrow>
         (case onMessage now data s of
            Threw e s' \<Rightarrow> s'\<lparr>console := console s' @ [''Failed to parse WebSocket message'']\<rparr>
          | Returned s' \<Rightarrow> s'))"

text \<open>\<^verbatim>\<open>WebSocket.close()\<close>: a socket that is connecting or open starts closing.\<close>

definition closeSocket :: "WebSocket \<Rightarrow> WebSocket" where
  "closeSocket w =
    (if readyState w = CONNECTING \<or> readyState w = OPEN then w\<lparr>readyState := CLOSING\<rparr> else w)"

text \<open>
  \<^verbatim>\<open>!text.trim()\<close>: nothing is left of the text when its white space and line terminators
  are removed. A text is a list of characters with codes below 256 here; of the
  characters that \<^verbatim>\<open>trim\<close> removes, those are tab, line feed, vertical tab, form feed,
  carriage return, space and the no-break space U+00A0.
\<close>

definition blank :: "string \<Rightarrow> bool" where
  "blank str =
    list_all (\<lambda>c. c \<in> set [CHR '' '', CHR 0x09, CHR 0x0A, CHR 0x0B, CHR 0x0C, CHR 0x0D,
                            CHR 0xA0]) str"

text \<open>A number inside a template literal: its decimal digits.\<close>

fun decimal :: "nat \<Rightarrow> string" where
  "decimal n =
    (if n < 10 then [''0123456789'' ! n]
     else decimal (n div 10) @ [''0123456789'' ! (n mod 10)])"

declare decimal.simps [simp del]

text \<open>
  \<^verbatim>\<open>connectToSocket\<close>. \<^verbatim>\<open>new WebSocket(url)\<close> throws a \<^verbatim>\<open>SyntaxError\<close> when the browser
  does not accept the URL: it does not parse as an absolute URL, its scheme is not one
  that WebSocket takes (\<^verbatim>\<open>ws\<close> and \<^verbatim>\<open>wss\<close>), or it has a fragment. The URL parser of the
  browser is not part of the sources, so its verdict on the URL is the parameter
  \<open>accepted\<close>, and both verdicts are considered for every URL. For an accepted URL the
  result is a new socket, still connecting, with the callbacks it is given; of the
  callbacks the socket keeps what they close over.
\<close>

definition connectToSocket :: "bool \<Rightarrow> string \<Rightarrow> bool \<Rightarrow> JsError + WebSocket" where
  "connectToSocket accepted url capturedIsRealtime =
    (if accepted
     then Inr \<lparr>ws_url = url, readyState = CONNECTING, ws_isRealtime = capturedIsRealtime\<rparr>
     else Inl SyntaxError)"

text \<open>
  \<^verbatim>\<open>handleConnect\<close>. When \<^verbatim>\<open>connectToSocket\<close> throws, the exception leaves the handler
  (it has no \<^verbatim>\<open>try\<close>): the handshake line is logged, \<^verbatim>\<open>isProcessing\<close> is set, the previous
  socket is closed and \<^verbatim>\<open>socketRef.current\<close> is \<^verbatim>\<open>null\<close>, and no socket is made.
\<close>

definition handleConnect :: "bool \<Rightarrow> Time \<Rightarrow> App \<Rightarrow> App" where
  "handleConnect accepted now s =
    (if blank (connectionUrl s) then s
     else
       (let s1 = addLog now
                   (''Initiating handshake with conductor at '' @ connectionUrl s @ ''...'') Info
                   (s\<lparr>isProcessing := True\<rparr>);
            s2 = (case socketRef s1 of
                    None \<Rightarrow> s1
                  | Some i \<Rightarrow>
                      s1\<lparr>sockets := (sockets s1)[i := closeSocket (sockets s1 ! i)],
                         socketRef := None\<rparr>)
        in case connectToSocket accepted (connectionUrl s) (isRealtime s) of
             Inl e \<Rightarrow> flush now s2
           | Inr ws \<Rightarrow>
               flush now (s2\<lparr>sockets := sockets s2 @ [ws],
                              socketRef := Some (length (sockets s2))\<rparr>)))"

text \<open>The open event of socket \<open>i\<close>: the third callback.\<close>

definition socketOpen :: "nat \<Rightarrow> Time \<Rightarrow> App \<Rightarrow> App" where
  "socketOpen i now s =
    (if i < length (sockets s) \<and> readyState (sockets s ! i) = CONNECTING then
       (let w = sockets s ! i;
            s1 = s\<lparr>sockets := (sockets s)[i := w\<lparr>readyState := OPEN\<rparr>],
                   isProcessing := False, isRealtime := True, isRunning := True\<rparr>
        in flush now
             (addLog now (''Successfully connected to live session at '' @ ws_url w) Success s1))
     else s)"

text \<open>
  React removes a component whose render throws (the file that mounts the component is not
  among the sources; with or without an error boundary around it, this instance of the
  component is unmounted). It runs the cleanups of its effects then:
  \<^verbatim>\<open>clearInterval(intervalId)\<close> (line 218) and
  \<^verbatim>\<open>if (socketRef.current) socketRef.current.close()\<close> (line 226).
\<close>

definition unmount :: "App \<Rightarrow> App" where
  "unmount s =
    (let s1 = s\<lparr>unmounted := True, timer := None\<rparr>
     in case socketRef s1 of
          None \<Rightarrow> s1
        | Some i \<Rightarrow> s1\<lparr>sockets := (sockets s1)[i := closeSocket (sockets s1 ! i)]\<rparr>)"

text \<open>
  A message event of socket \<open>i\<close>; the browser delivers messages to open sockets only. The
  message handler is the one handler that can leave a value in \<^verbatim>\<open>tasks\<close> that is not an
  array, on which the render that follows throws.
\<close>

definition socketMessage :: "nat \<Rightarrow> Json option \<Rightarrow> Time \<Rightarrow> App \<Rightarrow> App" where
  "socketMessage i parsed now s =
    (if i < length (sockets s) \<and> readyState (sockets s ! i) = OPEN
     then (let s1 = ws_onmessage now parsed s
           in if tasksOther s1 then unmount s1 else flush now s1)
     else s)"

text \<open>The error event of socket \<open>i\<close>: the second callback.\<close>

definition socketError :: "nat \<Rightarrow> Time \<Rightarrow> App \<Rightarrow> App" where
  "socketError i now s =
    (if i < length (sockets s) \<and> readyState (sockets s ! i) \<noteq> CLOSED then
       (let w = sockets s ! i;
            s1 = s\<lparr>console := console s @ [''WebSocket connection error occurred.'']\<rparr>
        in if \<not> ws_isRealtime w then
             flush now
               ((addLog now
                   ''Make sure the Conductor is running and exposing a WebSocket server.'' Warning
                   (addLog now (''Connection failed to '' @ ws_url w @ ''.'') Error s1))
                \<lparr>isProcessing := False\<rparr>)
           else s1)
     else s)"

text \<open>The close event of socket \<open>i\<close> with close code \<open>code\<close>: the fourth callback.\<close>

definition socketClose :: "nat \<Rightarrow> nat \<Rightarrow> Time \<Rightarrow> App \<Rightarrow> App" where
  "socketClose i code now s =
    (if i < length (sockets s) \<and> readyState (sockets s ! i) \<noteq> CLOSED then
       (let w = sockets s ! i;
            s1 = s\<lparr>sockets := (sockets s)[i := w\<lparr>readyState := CLOSED\<rparr>]\<rparr>
        in if ws_isRealtime w then
             flush now
               ((addLog now (''Connection closed by server (Code: '' @ decimal code @ '').'')
                   Warning s1)
                \<lparr>isRealtime := False, isRunning := False\<rparr>)
           else s1)
     else s)"

subsection \<open>The other handlers\<close>

definition stopConductor :: "Time \<Rightarrow> App \<Rightarrow> App" where
  "stopConductor now s =
    (let s1 = s\<lparr>isRunning := False, isRealtime := False\<rparr>;
         s2 = (case socketRef s1 of
                 None \<Rightarrow> s1
               | Some i \<Rightarrow>
                   addLog now ''Disconnected from Conductor.'' Info
                     (s1\<lparr>sockets := (sockets s1)[i := closeSocket (sockets s1 ! i)],
                         socketRef := None\<rparr>))
     in flush now s2)"

text \<open>
  \<^verbatim>\<open>loadDemoMode\<close> up to its \<^verbatim>\<open>await getDemoState()\<close>, and from there on, with the
  tasks and the goal that \<^verbatim>\<open>getDemoState\<close> has returned.
\<close>

definition loadDemoMode_begin :: "Time \<Rightarrow> App \<Rightarrow> App" where
  "loadDemoMode_begin now s =
    flush now (addLog now ''Loading Demo Simulation...'' Info (s\<lparr>isProcessing := True\<rparr>))"

definition loadDemoMode_resume :: "Task list \<Rightarrow> string \<Rightarrow> Time \<Rightarrow> App \<Rightarrow> App" where
  "loadDemoMode_resume recoveredTasks recoveredGoal now s =
    (let s1 = (setTasks recoveredTasks s)\<lparr>goal := GoalText recoveredGoal\<rparr>;
         s2 = (case find (\<lambda>t. status t = IN_PROGRESS) recoveredTasks of
                 Some active \<Rightarrow> s1\<lparr>activeTaskId := Some (task_id active)\<rparr>
               | None \<Rightarrow> s1);
         s3 = addLog now ''Demo loaded. This is a simulation, not real data.'' Warning
                (s2\<lparr>isRealtime := False, isRunning := True\<rparr>)
     in flush now (s3\<lparr>isProcessing := False\<rparr>))"

text \<open>
  \<^verbatim>\<open>handlePlan\<close> up to its \<^verbatim>\<open>await generatePlan(goal)\<close>, and from there on: with the plan
  that \<^verbatim>\<open>generatePlan\<close> has returned (a list of tasks built as in \<open>plannedTask\<close>), or with
  \<open>None\<close> when it has thrown. On a goal that is not a text \<^verbatim>\<open>goal.trim\<close> is not a function:
  the handler throws in its first line, before it has asked for any update.
\<close>

definition handlePlan_begin :: "Time \<Rightarrow> App \<Rightarrow> App" where
  "handlePlan_begin now s =
    (case goal s of
       GoalOther \<Rightarrow> s
     | GoalText g \<Rightarrow>
         if blank g then s
         else flush now
                (addLog now
                   (''Connecting to Gemini Conductor... analyzing goal: '' @ [CHR 0x22] @ g @
                    [CHR 0x22]) Info
                   (s\<lparr>isProcessing := True\<rparr>)))"

definition handlePlan_resume :: "Task list option \<Rightarrow> Time \<Rightarrow> App \<Rightarrow> App" where
  "handlePlan_resume result now s =
    (let s1 = (case result of
                 Some plan \<Rightarrow>
                   addLog now
                     (''Plan generated with '' @ decimal (length plan) @
                      '' tasks. Ready to execute.'') Success
                     (setTasks plan s)
               | None \<Rightarrow>
                   addLog now ''Failed to generate plan. Please check API Key.'' Error s)
     in flush now (s1\<lparr>isProcessing := False\<rparr>))"

subsection \<open>Events and runs\<close>

text \<open>
  Everything that can happen to the component, each with the clock reading it takes.
  \<open>Tick r\<close> is a firing of the interval that draws \<open>r\<close> from \<^verbatim>\<open>Math.random()\<close>, and
  \<open>Connect accepted\<close> a click on the connect button, with the verdict of the browser on the
  URL that is entered.
\<close>

datatype Event =
    Tick rat
  | LogArrives LogData
  | Connect bool
  | SetUrl string
  | SocketOpen nat
  | SocketMessage nat "Json option"
  | SocketError nat
  | SocketClose nat nat
  | Stop
  | DemoBegin
  | DemoResume "Task list" string
  | SetGoal string
  | PlanBegin
  | PlanResume "Task list option"

text \<open>An event on the mounted component.\<close>

fun mounted_step :: "Time \<Rightarrow> Event \<Rightarrow> App \<Rightarrow> App" where
  "mounted_step now (Tick r) s = tick (increment_of r) now s"
| "mounted_step now (LogArrives ld) s = logArrives ld now s"
| "mounted_step now (Connect accepted) s = handleConnect accepted now s"
| "mounted_step now (SetUrl u) s = s\<lparr>connectionUrl := u\<rparr>"
| "mounted_step now (SocketOpen i) s = socketOpen i now s"
| "mounted_step now (SocketMessage i parsed) s = socketMessage i parsed now s"
| "mounted_step now (SocketError i) s = socketError i now s"
| "mounted_step now (SocketClose i code) s = socketClose i code now s"
| "mounted_step now Stop s = stopConductor now s"
| "mounted_step now DemoBegin s = loadDemoMode_begin now s"
| "mounted_step now (DemoResume ts g) s = loadDemoMode_resume ts g now s"
| "mounted_step now (SetGoal g) s = s\<lparr>goal := GoalText g\<rparr>"
| "mounted_step now PlanBegin s = handlePlan_begin now s"
| "mounted_step now (PlanResume result) s = handlePlan_resume result now s"

text \<open>
  An event after the component has been removed. There is no user interface any more and
  the interval is cleared. The callbacks of the sockets and the continuations of the
  handlers still run, but React ignores the state updates they ask for. What is left of
  them is what they do outside the state: the sockets change their \<^verbatim>\<open>readyState\<close>, the
  lines of \<^verbatim>\<open>console.error\<close> are written, the continuation of a tick clears
  \<^verbatim>\<open>processingRef.current\<close>.
\<close>

fun afterUnmount :: "Time \<Rightarrow> Event \<Rightarrow> App \<Rightarrow> App" where
  "afterUnmount now (LogArrives ld) s =
    (case inflight s of
       None \<Rightarrow> s
     | Some r \<Rightarrow> s\<lparr>processingRef := False, inflight := None\<rparr>)"
| "afterUnmount now (SocketOpen i) s =
    (if i < length (sockets s) \<and> readyState (sockets s ! i) = CONNECTING
     then s\<lparr>sockets := (sockets s)[i := (sockets s ! i)\<lparr>readyState := OPEN\<rparr>]\<rparr>
     else s)"
| "afterUnmount now (SocketMessage i parsed) s =
    (if i < length (sockets s) \<and> readyState (sockets s ! i) = OPEN
     then s\<lparr>console := console (ws_onmessage now parsed s)\<rparr>
     else s)"
| "afterUnmount now (SocketError i) s =
    (if i < length (sockets s) \<and> readyState (sockets s ! i) \<noteq> CLOSED
     then s\<lparr>console := console s @ [''WebSocket connection error occurred.'']\<rparr>
     else s)"
| "afterUnmount now (SocketClose i code) s =
    (if i < length (sockets s) \<and> readyState (sockets s ! i) \<noteq> CLOSED
     then s\<lparr>sockets := (sockets s)[i := (sockets s ! i)\<lparr>readyState := CLOSED\<rparr>]\<rparr>
     else s)"
| "afterUnmount now e s = s"

definition step :: "Time \<Rightarrow> Event \<Rightarrow> App \<Rightarrow> App" where
  "step now e s = (if unmounted s then afterUnmount now e s else mounted_step now e s)"

definition run :: "(Time \<times> Event) list \<Rightarrow> App \<Rightarrow> App" where
  "run evs s = foldl (\<lambda>a (now, e). step now e a) s evs"

text \<open>The events of the progression engine, with a draw that \<^verbatim>\<open>Math.random()\<close> can return.\<close>

fun engine_event :: "Event \<Rightarrow> bool" where
  "engine_event (Tick r) = (0 \<le> r \<and> r < 1)"
| "engine_event (LogArrives ld) = True"
| "engine_event e = False"

definition activeSockets :: "App \<Rightarrow> nat" where
  "activeSockets s =
    length (filter (\<lambda>w. readyState w = CONNECTING \<or> readyState w = OPEN) (sockets s))"

text \<open>
  The invariant behind the single connection: \<open>socketRef\<close> points at a socket that exists,
  and every other socket is closing or closed.
\<close>

definition inactive :: "WebSocket \<Rightarrow> bool" where
  "inactive w = (readyState w \<noteq> CONNECTING \<and> readyState w \<noteq> OPEN)"

definition conn_inv :: "App \<Rightarrow> bool" where
  "conn_inv s =
    ((case socketRef s of None \<Rightarrow> True | Some k \<Rightarrow> k < length (sockets s)) \<and>
     (\<forall>i < length (sockets s). socketRef s \<noteq> Some i \<longrightarrow> inactive (sockets s ! i)))"

text \<open>
  A live session: on the fresh component the user connects to the default URL, which the
  browser accepts, and the socket opens.
\<close>

definition liveSession :: App where
  "liveSession = run [(0, Connect True), (1, SocketOpen 0)] initialApp"

text \<open>
  Payloads that match none of the shapes the adapter recognises, though each has one of
  the keys it tests: \<^verbatim>\<open>{"tasks": 5}\<close>, \<^verbatim>\<open>{"projectGoal": 7}\<close> and \<^verbatim>\<open>{"log": "hello"}\<close>. And a
  payload without any of the keys, such as \<^verbatim>\<open>{"hello": 1}\<close>.
\<close>

definition noFields :: FeedData where
  "noFields =
    \<lparr>d_tasks = TasksAbsent, d_log = LogAbsent, d_logs = None, d_projectGoal = GoalAbsent\<rparr>"

definition tasksFive :: FeedData where
  "tasksFive = noFields\<lparr>d_tasks := TasksOther\<rparr>"

definition goalSeven :: FeedData where
  "goalSeven = noFields\<lparr>d_projectGoal := GoalNonString\<rparr>"

definition logHello :: FeedData where
  "logHello = noFields\<lparr>d_log := LogOther\<rparr>"

subsection \<open>The engine left to itself\<close>

text \<open>
  The task updater alone, and one cycle of the engine when nothing interferes: a firing of
  the interval with its increment, and then the arrival of the log line it asked for (if
  it asked for one) before the next firing. \<open>cycles\<close> runs a list of cycles, each with its
  increment, its clock reading and the line the provider returns.
\<close>

definition upd :: "int \<Rightarrow> Task list \<Rightarrow> Task list" where
  "upd inc ts = fst (tickUpdater True inc ts)"

definition cycle :: "int \<times> Time \<times> LogData \<Rightarrow> App \<Rightarrow> App" where
  "cycle x s = (case x of (inc, now, ld) \<Rightarrow> logArrives ld now (tick inc now s))"

definition cycles :: "(int \<times> Time \<times> LogData) list \<Rightarrow> App \<Rightarrow> App" where
  "cycles xs s = foldl (\<lambda>a x. cycle x a) s xs"

text \<open>The updater applied once for each increment of a list.\<close>

definition upds :: "int list \<Rightarrow> Task list \<Rightarrow> Task list" where
  "upds incs ts = foldl (\<lambda>a inc. upd inc a) ts incs"

text \<open>Status and progress of every task, in order.\<close>

definition withoutLogs :: "Task list \<Rightarrow> (TaskStatus \<times> int) list" where
  "withoutLogs ts = map (\<lambda>t. (status t, progress t)) ts"

definition allCompleted :: "Task list \<Rightarrow> bool" where
  "allCompleted ts = list_all (\<lambda>t. status t = COMPLETED) ts"

text \<open>
  The states of the simulation between two cycles: no request in flight, and either the
  interval is installed on the current tasks, or all tasks are completed and the engine
  has stopped.
\<close>

definition engineReady :: "App \<Rightarrow> bool" where
  "engineReady s =
    (stable s \<and> \<not> isRealtime s \<and> \<not> processingRef s \<and> inflight s = None \<and> tasks s \<noteq> [] \<and>
     (if allCompleted (tasks s) then \<not> isRunning s \<and> timer s = None
      else isRunning s \<and>
           timer s = Some \<lparr>c_tasks = tasks s, c_activeTaskId = activeTaskId s,
                           c_isRunning = True\<rparr>))"

text \<open>
  The states of a simulation that nothing disturbs: as \<open>engineReady\<close>, but a log request
  may be in flight, and \<^verbatim>\<open>processingRef.current\<close> is set exactly then.
\<close>

definition engineOk :: "App \<Rightarrow> bool" where
  "engineOk s =
    (stable s \<and> \<not> isRealtime s \<and> tasks s \<noteq> [] \<and>
     processingRef s = (inflight s \<noteq> None) \<and>
     (if allCompleted (tasks s) then \<not> isRunning s \<and> timer s = None
      else isRunning s \<and>
           timer s = Some \<lparr>c_tasks = tasks s, c_activeTaskId = activeTaskId s,
                           c_isRunning = True\<rparr>))"

text \<open>
  The number of ticks a task still needs at most, when every increment is at least 5: a
  pending task one for its promotion and nineteen advances from the seed 5, a task in
  progress one advance for every 5 points (or part of 5 points) it is short of 100.
\<close>

definition remaining :: "Task \<Rightarrow> nat" where
  "remaining t =
    (case status t of
       PENDING \<Rightarrow> 20
     | IN_PROGRESS \<Rightarrow> (if 100 \<le> progress t then 1 else nat ((104 - progress t) div 5))
     | REVIEW \<Rightarrow> 0
     | COMPLETED \<Rightarrow> 0)"

definition totalRemaining :: "Task list \<Rightarrow> nat" where
  "totalRemaining ts = sum_list (map remaining ts)"

definition completedCount :: "Task list \<Rightarrow> nat" where
  "completedCount ts = length (filter (\<lambda>t. status t = COMPLETED) ts)"

subsection \<open>Scenarios\<close>

text \<open>\<^verbatim>\<open>String.prototype.includes\<close>, by way of \<^verbatim>\<open>startsWith\<close> at every position.\<close>

fun startsWith :: "string \<Rightarrow> string \<Rightarrow> bool" where
  "startsWith str [] = True"
| "startsWith [] (c # sub) = False"
| "startsWith (d # str) (c # sub) = (d = c \<and> startsWith str sub)"

fun containsText :: "string \<Rightarrow> string \<Rightarrow> bool" where
  "containsText [] sub = (sub = [])"
| "containsText (d # str) sub = (startsWith (d # str) sub \<or> containsText str sub)"

text \<open>The line \<^verbatim>\<open>generateTaskLog\<close> returns when no API key is configured.\<close>

definition localLog :: LogData where
  "localLog = \<lparr>ld_message = ''Simulated local execution...'', ld_type = Info\<rparr>"

text \<open>
  The feed scenario: in the live session the feed delivers a snapshot of two tasks, one of
  them in progress, and then the connection closes with code 1006.
\<close>

definition feedSnapshot :: FeedData where
  "feedSnapshot =
    \<lparr>d_tasks = TasksArray [(plannedTask ''t1'' ''Build'' '''' High)
                             \<lparr>status := IN_PROGRESS, progress := 30\<rparr>,
                           plannedTask ''t2'' ''Test'' '''' Low],
     d_log = LogAbsent, d_logs = None, d_projectGoal = GoalAbsent\<rparr>"

definition feedClosed :: App where
  "feedClosed =
    run [(2, SocketMessage 0 (Some (JValue feedSnapshot))), (3, SocketClose 0 1006)] liveSession"


text \<open>
  The engine scenarios: on the fresh component the simulation is started on the given
  tasks the way \<^verbatim>\<open>loadDemoMode\<close> starts it, which is the one handler that sets
  \<^verbatim>\<open>isRunning\<close> without a connection.
\<close>

definition simulationOn :: "Task list \<Rightarrow> App" where
  "simulationOn ts = loadDemoMode_resume ts '''' 0 (loadDemoMode_begin 0 initialApp)"

definition threePending :: "Task list" where
  "threePending =
    [plannedTask ''t1'' ''Setup'' '''' High, plannedTask ''t2'' ''Core'' '''' Medium,
     plannedTask ''t3'' ''Tests'' '''' Low]"

definition allDoneLogs :: "App \<Rightarrow> nat" where
  "allDoneLogs s =
    length (filter (\<lambda>l. lineMessage l = Some ''All tasks completed successfully.'')
              (globalLogs s))"

subsection \<open>A demo session\<close>

text \<open>
  The demo as the user starts it with \<^verbatim>\<open>View Demo\<close> on the fresh component, and four
  engine events on it: two ticks, each followed by the arrival of its log line.
\<close>

definition demoSession :: App where
  "demoSession =
    (case getDemoState (\<lambda>n. ''id-'' @ decimal n) 1700000000000 of
       (ts, g) \<Rightarrow>
         loadDemoMode_resume ts g 1700000000800 (loadDemoMode_begin 1700000000000 initialApp))"

definition demoEvents :: "(Time \<times> Event) list" where
  "demoEvents =
    [(1700000002800, Tick (1 / 2)),
     (1700000003000, LogArrives \<lparr>ld_message = ''Processing...'', ld_type = Info\<rparr>),
     (1700000005000, Tick (14 / 15)),
     (1700000005200, LogArrives \<lparr>ld_message = ''Processing...'', ld_type = Info\<rparr>)]"

section \<open>Facts about the helpers\<close>

lemma findIndex_Some_less: "findIndex P xs = Some i \<Longrightarrow> i < length xs"
  by (induction xs arbitrary: i) (auto split: if_splits)

lemma findIndex_Some_holds: "findIndex P xs = Some i \<Longrightarrow> P (xs ! i)"
  by (induction xs arbitrary: i) (auto split: if_splits)

lemma findIndex_None_iff: "findIndex P xs = None \<longleftrightarrow> (\<forall>x\<in>set xs. \<not> P x)"
  by (induction xs) auto

lemma increment_of_range:
  assumes "0 \<le> r" "r < 1"
  shows "5 \<le> increment_of r \<and> increment_of r \<le> 19"
proof -
  have "0 \<le> r * 15" using assms by simp
  then have lo: "0 \<le> \<lfloor>r * 15\<rfloor>" by simp
  have "r * 15 < 15" using assms by simp
  then have hi: "\<lfloor>r * 15\<rfloor> < 15" by (simp add: floor_less_iff)
  from lo hi show ?thesis by (simp add: increment_of_def)
qed

lemma length_slice_last: "length (slice_last n xs) = min n (length xs)"
  by (simp add: slice_last_def)

lemma length_appendLog: "length (appendLog e buf) = Suc (min 99 (length buf))"
  by (simp add: appendLog_def length_slice_last)

lemma appendLogs_snoc: "appendLogs (es @ [e]) buf = appendLog e (appendLogs es buf)"
  by (simp add: appendLogs_def)

lemma appendLogs_from_empty: "appendLogs es [] = slice_last 100 es"
proof (induction es rule: rev_induct)
  case Nil
  show ?case by (simp add: appendLogs_def slice_last_def)
next
  case (snoc e es)
  have "length es - (length es - 100 + 99) + (length es - 100) = length es - 99"
    by arith
  then have "slice_last 99 (slice_last 100 es) = slice_last 99 es"
    by (simp add: slice_last_def)
  moreover have "slice_last 100 (es @ [e]) = slice_last 99 es @ [e]"
    by (simp add: slice_last_def)
  ultimately show ?case
    using snoc by (simp add: appendLogs_snoc appendLog_def)
qed

lemma length_appendLogs_le:
  "length buf \<le> 100 \<Longrightarrow> length (appendLogs es buf) \<le> 100"
proof (induction es rule: rev_induct)
  case Nil
  then show ?case by (simp add: appendLogs_def)
next
  case (snoc e es)
  show ?case by (simp add: appendLogs_snoc length_appendLog)
qed

subsection \<open>The updater\<close>

lemma fst_tickUpdater_running:
  "fst (tickUpdater b inc ts) = fst (tickUpdater True inc ts)"
  by (simp add: tickUpdater_def Let_def split: option.splits)

lemma length_tickUpdater: "length (fst (tickUpdater b inc ts)) = length ts"
  by (simp add: tickUpdater_def Let_def split: option.splits)

lemma tickUpdater_frame:
  assumes "selectedIndex ts \<noteq> Some j"
  shows "fst (tickUpdater b inc ts) ! j = ts ! j"
  using assms
  by (auto simp: tickUpdater_def selectedIndex_def Let_def split: option.splits)

lemma list_all_update:
  "list_all P xs \<Longrightarrow> P y \<Longrightarrow> list_all P (xs[i := y])"
  by (induction xs arbitrary: i) (auto split: nat.splits)

lemma list_all_nth: "list_all P xs \<Longrightarrow> i < length xs \<Longrightarrow> P (xs ! i)"
  by (simp add: list_all_length)

lemma progress_ok_tickUpdater:
  assumes ok: "progress_ok ts" and inc: "0 \<le> inc"
  shows "progress_ok (fst (tickUpdater b inc ts))"
proof (cases "findIndex (\<lambda>t. status t = IN_PROGRESS) ts")
  case None
  show ?thesis
  proof (cases "findIndex (\<lambda>t. status t = PENDING) ts")
    case n: None
    with None show ?thesis using ok by (simp add: tickUpdater_def)
  next
    case (Some i)
    with None show ?thesis using ok
      by (simp add: tickUpdater_def progress_ok_def list_all_update)
  qed
next
  case (Some i)
  then have "i < length ts" by (rule findIndex_Some_less)
  with ok have "0 \<le> progress (ts ! i)"
    unfolding progress_ok_def by (auto dest: list_all_nth)
  with inc have "0 \<le> min (progress (ts ! i) + inc) 100" by simp
  with Some ok show ?thesis
    by (simp add: tickUpdater_def progress_ok_def Let_def list_all_update)
qed

lemma filter_update_count:
  "i < length xs \<Longrightarrow>
   length (filter P (xs[i := y])) + (if P (xs ! i) then 1 else 0) =
   length (filter P xs) + (if P y then 1 else 0)"
proof (induction xs arbitrary: i)
  case Nil
  then show ?case by simp
next
  case (Cons x xs)
  show ?case
  proof (cases i)
    case 0
    then show ?thesis by simp
  next
    case (Suc k)
    with Cons.prems have "k < length xs" by simp
    from Cons.IH [OF this] Suc show ?thesis by simp
  qed
qed

lemma in_progress_count_zero:
  "findIndex (\<lambda>t. status t = IN_PROGRESS) ts = None \<Longrightarrow> in_progress_count ts = 0"
  by (simp add: in_progress_count_def findIndex_None_iff)

lemma in_progress_count_tickUpdater:
  assumes "in_progress_count ts \<le> 1"
  shows "in_progress_count (fst (tickUpdater b inc ts)) \<le> 1"
proof (cases "findIndex (\<lambda>t. status t = IN_PROGRESS) ts")
  case None
  then have zero: "in_progress_count ts = 0" by (rule in_progress_count_zero)
  show ?thesis
  proof (cases "findIndex (\<lambda>t. status t = PENDING) ts")
    case n: None
    with None assms show ?thesis by (simp add: tickUpdater_def)
  next
    case (Some i)
    then have "i < length ts" by (rule findIndex_Some_less)
    from filter_update_count [OF this, of "\<lambda>t. status t = IN_PROGRESS"
        "(ts ! i)\<lparr>status := IN_PROGRESS, progress := 5\<rparr>"] zero
    have "in_progress_count (ts[i := (ts ! i)\<lparr>status := IN_PROGRESS, progress := 5\<rparr>]) \<le> 1"
      unfolding in_progress_count_def by (simp split: if_splits)
    with None Some show ?thesis by (simp add: tickUpdater_def)
  qed
next
  case (Some i)
  then have less: "i < length ts" and ip: "status (ts ! i) = IN_PROGRESS"
    by (auto dest: findIndex_Some_less findIndex_Some_holds)
  have "in_progress_count (ts[i := y]) \<le> 1" for y
    using filter_update_count [OF less, of "\<lambda>t. status t = IN_PROGRESS" y] ip assms
    unfolding in_progress_count_def by (simp split: if_splits)
  with Some show ?thesis by (simp add: tickUpdater_def Let_def)
qed

section \<open>Rendering\<close>

text \<open>The effect and the renders leave everything but the interval, the two flags they clear
  and the global log alone.\<close>

lemma effect_frame:
  "tasks (effect now s) = tasks s"
  "sockets (effect now s) = sockets s"
  "socketRef (effect now s) = socketRef s"
  "goal (effect now s) = goal s"
  "console (effect now s) = console s"
  "inflight (effect now s) = inflight s"
  "processingRef (effect now s) = processingRef s"
  "tasksRef (effect now s) = tasksRef s"
  "connectionUrl (effect now s) = connectionUrl s"
  "isProcessing (effect now s) = isProcessing s"
  "isRealtime (effect now s) = isRealtime s"
  "effectDeps (effect now s) = effectDeps s"
  by (simp_all add: effect_def Let_def addLog_def)

lemma render_frame:
  "tasks (render now s) = tasks s"
  "sockets (render now s) = sockets s"
  "socketRef (render now s) = socketRef s"
  "goal (render now s) = goal s"
  "console (render now s) = console s"
  "inflight (render now s) = inflight s"
  "processingRef (render now s) = processingRef s"
  "tasksRef (render now s) = tasksRef s"
  "connectionUrl (render now s) = connectionUrl s"
  "isProcessing (render now s) = isProcessing s"
  "isRealtime (render now s) = isRealtime s"
  by (simp_all add: render_def effect_frame)

lemma flush_frame:
  "tasks (flush now s) = tasks s"
  "sockets (flush now s) = sockets s"
  "socketRef (flush now s) = socketRef s"
  "goal (flush now s) = goal s"
  "console (flush now s) = console s"
  "inflight (flush now s) = inflight s"
  "processingRef (flush now s) = processingRef s"
  "tasksRef (flush now s) = tasksRef s"
  "connectionUrl (flush now s) = connectionUrl s"
  "isProcessing (flush now s) = isProcessing s"
  "isRealtime (flush now s) = isRealtime s"
  by (simp_all add: flush_def render_frame)

lemma render_stable: "stable s \<Longrightarrow> render now s = s"
  by (simp add: stable_def render_def)

lemma effect_isRunning: "isRunning (effect now s) \<Longrightarrow> isRunning s"
  by (simp add: effect_def Let_def addLog_def split: if_splits)

lemma effect_deps_cases:
  "deps (effect now s) = deps s \<or>
   (isRunning s \<and> \<not> isRunning (effect now s) \<and> activeTaskId (effect now s) = activeTaskId s) \<or>
   (\<not> isRunning s \<and> \<not> isRunning (effect now s) \<and> truthy (activeTaskId s) \<and> activeTaskId (effect now s) = None)"
  by (auto simp add: effect_def Let_def addLog_def deps_def)

lemma render_idle_stable:
  assumes "\<not> isRunning s" "\<not> truthy (activeTaskId s)"
  shows "stable (render now s)"
  using assms by (simp add: render_def stable_def effect_def deps_def Let_def)

lemma render_stopped_stable:
  assumes "\<not> isRunning s"
  shows "stable (render now (render now s))"
proof (cases "truthy (activeTaskId s)")
  case False
  with assms have "stable (render now s)" by (rule render_idle_stable)
  then show ?thesis by (simp add: render_stable)
next
  case True
  show ?thesis
  proof (cases "stable s")
    case True
    then show ?thesis by (simp add: render_stable)
  next
    case False
    with assms True have "\<not> isRunning (render now s)" "\<not> truthy (activeTaskId (render now s))"
      by (simp_all add: render_def stable_def effect_def Let_def truthy_def)
    then show ?thesis by (rule render_idle_stable)
  qed
qed

lemma flush_stable: "stable (flush now s)"
proof (cases "stable s")
  case True
  then show ?thesis by (simp add: flush_def render_stable)
next
  case False
  let ?s1 = "render now s"
  have s1: "?s1 = effect now (s\<lparr>effectDeps := Some (deps s)\<rparr>)"
    using False by (simp add: render_def stable_def)
  show ?thesis
  proof (cases "isRunning ?s1")
    case False
    then have "stable (render now (render now ?s1))" by (rule render_stopped_stable)
    then show ?thesis by (simp add: flush_def)
  next
    case True
    have "deps ?s1 = deps s"
      using True effect_deps_cases [of now "s\<lparr>effectDeps := Some (deps s)\<rparr>"]
      unfolding s1 by (auto simp: deps_def)
    moreover have "effectDeps ?s1 = Some (deps s)"
      unfolding s1 by (simp add: effect_frame)
    ultimately have "stable ?s1" by (simp add: stable_def)
    then show ?thesis by (simp add: flush_def render_stable)
  qed
qed

lemma render_flush: "render now (flush now s) = flush now s"
  by (rule render_stable) (rule flush_stable)



section \<open>What the engine events do to the tasks\<close>

lemma applyEffects_tasks: "tasks (applyEffects now effs s) = tasks s"
proof -
  have "tasks (foldl (\<lambda>a e. applyEffect now e a) s effs) = tasks s"
  proof (induction effs arbitrary: s)
    case Nil
    show ?case by simp
  next
    case (Cons e effs)
    have "tasks (applyEffect now e s) = tasks s"
      by (cases e) (simp_all add: addLog_def)
    with Cons show ?case by simp
  qed
  then show ?thesis by (simp add: applyEffects_def)
qed

lemma tasks_tick:
  "tasks (tick inc now s) =
    (if timer s = None \<or> processingRef s then tasks s
     else fst (tickUpdater True inc (tasks s)))"
proof (cases "timer s")
  case None
  then show ?thesis by (simp add: tick_def)
next
  case (Some c)
  obtain newTasks effs where u: "tickUpdater (c_isRunning c) inc (tasks s) = (newTasks, effs)"
    by (cases "tickUpdater (c_isRunning c) inc (tasks s)")
  then have "newTasks = fst (tickUpdater True inc (tasks s))"
    using fst_tickUpdater_running [of "c_isRunning c" inc "tasks s"] by simp
  with Some u show ?thesis
    by (simp add: tick_def Let_def flush_frame applyEffects_tasks setTasks_def
             split: option.splits)
qed

lemma tasks_logArrives:
  "tasks (logArrives ld now s) =
    (case inflight s of
       None \<Rightarrow> tasks s
     | Some r \<Rightarrow>
         map (\<lambda>t. if task_id t = r_activeTaskId r
                   then t\<lparr>logs := logs t @ [\<lparr>timestamp = now, message = ld_message ld,
                                               severity = ld_type ld\<rparr>]\<rparr>
                   else t) (tasks s))"
  by (simp add: logArrives_def Let_def flush_frame setTasks_def addLog_def split: option.splits)

lemma progress_ok_logs:
  "progress_ok (map (\<lambda>t. if P t then t\<lparr>logs := f t\<rparr> else t) ts) = progress_ok ts"
  by (induction ts) (simp_all add: progress_ok_def)

lemma in_progress_count_logs:
  "in_progress_count (map (\<lambda>t. if P t then t\<lparr>logs := f t\<rparr> else t) ts) = in_progress_count ts"
  by (induction ts) (simp_all add: in_progress_count_def)

lemma tasks_afterUnmount: "tasks (afterUnmount now e s) = tasks s"
  by (cases e) (simp_all split: option.splits)

lemma progress_ok_mounted_step:
  assumes "progress_ok (tasks s)" "engine_event e"
  shows "progress_ok (tasks (mounted_step now e s))"
proof (cases e)
  case (Tick r)
  with assms(2) have "5 \<le> increment_of r" using increment_of_range [of r] by simp
  then have "0 \<le> increment_of r" by simp
  with assms(1) Tick show ?thesis by (simp add: tasks_tick progress_ok_tickUpdater)
next
  case (LogArrives ld)
  with assms(1) show ?thesis
    by (simp add: tasks_logArrives progress_ok_logs split: option.splits)
qed (use assms(2) in simp_all)

lemma progress_ok_step:
  assumes "progress_ok (tasks s)" "engine_event e"
  shows "progress_ok (tasks (step now e s))"
  using assms by (simp add: step_def tasks_afterUnmount progress_ok_mounted_step)

lemma in_progress_count_mounted_step:
  assumes "in_progress_count (tasks s) \<le> 1" "engine_event e"
  shows "in_progress_count (tasks (mounted_step now e s)) \<le> 1"
proof (cases e)
  case (Tick r)
  from in_progress_count_tickUpdater [OF assms(1), of True "increment_of r"] assms(1) Tick
  show ?thesis by (simp add: tasks_tick)
next
  case (LogArrives ld)
  with assms(1) show ?thesis
    by (simp add: tasks_logArrives in_progress_count_logs split: option.splits)
qed (use assms(2) in simp_all)

lemma in_progress_count_step:
  assumes "in_progress_count (tasks s) \<le> 1" "engine_event e"
  shows "in_progress_count (tasks (step now e s)) \<le> 1"
proof (cases "unmounted s")
  case True
  with assms(1) show ?thesis by (simp add: step_def tasks_afterUnmount)
next
  case False
  with in_progress_count_mounted_step [OF assms] show ?thesis by (simp add: step_def)
qed

lemma run_snoc: "run (evs @ [(now, e)]) s = step now e (run evs s)"
  by (simp add: run_def)

section \<open>Progress stays within 0 and 100\<close>

text \<open>
  Claim C4. Start from tasks whose progress values lie between 0 and 100 and let any
  sequence of engine events happen: firings of the interval, each with an increment
  \<^verbatim>\<open>Math.floor(Math.random() * 15) + 5\<close> for a draw in [0, 1), and arrivals of log lines.
  After every event every task's progress lies between 0 and 100. (The sequence is
  arbitrary, so this covers the state after each of its prefixes.) The promotion writes
  the seed 5 (lemma \<open>promotion_seeds_five\<close> below), the advance writes
  \<^verbatim>\<open>Math.min(progress + increment, 100)\<close> with an increment of at least 5, and nothing
  else writes a progress value.
\<close>

theorem progress_stays_in_range:
  assumes "progress_ok (tasks s)" and "list_all (\<lambda>(now, e). engine_event e) evs"
  shows "progress_ok (tasks (run evs s))"
  using assms(2)
proof (induction evs rule: rev_induct)
  case Nil
  from assms(1) show ?case by (simp add: run_def)
next
  case (snoc x evs)
  obtain now e where x: "x = (now, e)" by (cases x)
  with snoc show ?case by (simp add: run_snoc progress_ok_step)
qed

lemma promotion_seeds_five:
  assumes "j < length ts" "status (ts ! j) = PENDING"
    and "status (fst (tickUpdater running inc ts) ! j) = IN_PROGRESS"
  shows "progress (fst (tickUpdater running inc ts) ! j) = 5"
proof (cases "findIndex (\<lambda>t. status t = IN_PROGRESS) ts")
  case None
  show ?thesis
  proof (cases "findIndex (\<lambda>t. status t = PENDING) ts")
    case n: None
    with assms(1,2) show ?thesis by (auto simp: findIndex_None_iff)
  next
    case (Some i)
    with None assms show ?thesis
      by (cases "i = j") (simp_all add: tickUpdater_def)
  qed
next
  case (Some i)
  then have "status (ts ! i) = IN_PROGRESS" by (rule findIndex_Some_holds)
  with assms(2) have "i \<noteq> j" by auto
  with Some assms show ?thesis
    by (simp add: tickUpdater_def Let_def split: if_splits)
qed

theorem progress_stays_in_range_witness:
  "progress_ok (tasks demoSession) \<and>
   list_all (\<lambda>(now, e). engine_event e) demoEvents \<and>
   progress_ok (tasks (run demoEvents demoSession))"
proof -
  have start: "progress_ok (tasks demoSession)" by code_simp
  have events: "list_all (\<lambda>(now, e). engine_event e) demoEvents" by code_simp
  from progress_stays_in_range [OF start events] start events show ?thesis by blast
qed

section \<open>The engine keeps at most one task in progress\<close>

text \<open>
  Claim C5. Start from a task list with at most one task in progress and let any sequence
  of engine events happen (firings of the interval and arrivals of log lines). In every
  state reached at most one task has status \<^verbatim>\<open>IN_PROGRESS\<close>: the updater promotes a
  pending task only when \<^verbatim>\<open>findIndex\<close> finds no task in progress, and the completing
  advance replaces the status of the one task in progress and clears the active task id
  in the same update (lemmas \<open>promotion_needs_no_active_task\<close> and
  \<open>completion_clears_active_task\<close> below).
\<close>

theorem engine_keeps_single_active_task:
  assumes "in_progress_count (tasks s) \<le> 1" and "list_all (\<lambda>(now, e). engine_event e) evs"
  shows "in_progress_count (tasks (run evs s)) \<le> 1"
  using assms(2)
proof (induction evs rule: rev_induct)
  case Nil
  from assms(1) show ?case by (simp add: run_def)
next
  case (snoc x evs)
  obtain now e where x: "x = (now, e)" by (cases x)
  with snoc have "in_progress_count (tasks (run evs s)) \<le> 1" "engine_event e" by simp_all
  then have "in_progress_count (tasks (step now e (run evs s))) \<le> 1"
    by (rule in_progress_count_step)
  with x show ?case by (simp add: run_snoc)
qed

lemma promotion_needs_no_active_task:
  assumes "j < length ts" "status (ts ! j) = PENDING"
    and "status (fst (tickUpdater running inc ts) ! j) = IN_PROGRESS"
  shows "findIndex (\<lambda>t. status t = IN_PROGRESS) ts = None"
proof (cases "findIndex (\<lambda>t. status t = IN_PROGRESS) ts")
  case None
  then show ?thesis .
next
  case (Some i)
  then have "status (ts ! i) = IN_PROGRESS" by (rule findIndex_Some_holds)
  with assms(2) have "i \<noteq> j" by auto
  with Some assms show ?thesis
    by (simp add: tickUpdater_def Let_def split: if_splits)
qed

lemma completion_clears_active_task:
  assumes "j < length ts" "status (ts ! j) = IN_PROGRESS"
    and "status (fst (tickUpdater running inc ts) ! j) = COMPLETED"
  shows "snd (tickUpdater running inc ts) = [SetActiveTaskId None]"
proof (cases "findIndex (\<lambda>t. status t = IN_PROGRESS) ts")
  case None
  with assms(1,2) show ?thesis by (auto simp: findIndex_None_iff)
next
  case (Some i)
  show ?thesis
  proof (cases "i = j")
    case True
    with Some assms show ?thesis
      by (simp add: tickUpdater_def Let_def split: if_splits)
  next
    case False
    with Some assms show ?thesis
      by (simp add: tickUpdater_def Let_def split: if_splits)
  qed
qed

theorem engine_keeps_single_active_task_witness:
  "in_progress_count (tasks demoSession) \<le> 1 \<and>
   list_all (\<lambda>(now, e). engine_event e) demoEvents \<and>
   in_progress_count (tasks (run demoEvents demoSession)) \<le> 1"
proof -
  have start: "in_progress_count (tasks demoSession) \<le> 1" by code_simp
  have events: "list_all (\<lambda>(now, e). engine_event e) demoEvents" by code_simp
  from engine_keeps_single_active_task [OF start events] start events
  show ?thesis by blast
qed

section \<open>At most one connection\<close>

lemma filter_le_one:
  "(\<forall>i < length xs. i \<noteq> k \<longrightarrow> \<not> P (xs ! i)) \<Longrightarrow> length (filter P xs) \<le> 1"
proof (induction xs arbitrary: k)
  case Nil
  show ?case by simp
next
  case (Cons x xs)
  show ?case
  proof (cases k)
    case 0
    have "\<not> P y" if "y \<in> set xs" for y
    proof -
      from that obtain i where "i < length xs" "xs ! i = y" by (auto simp: in_set_conv_nth)
      with Cons.prems 0 show ?thesis by (auto dest: spec [of _ "Suc i"])
    qed
    then have "filter P xs = []" by (simp add: filter_empty_conv)
    then show ?thesis by simp
  next
    case (Suc k')
    with Cons.prems have "\<not> P x" by (auto dest: spec [of _ 0])
    moreover have "\<forall>i < length xs. i \<noteq> k' \<longrightarrow> \<not> P (xs ! i)"
      using Cons.prems Suc by (auto dest: spec [of _ "Suc i" for i])
    then have "length (filter P xs) \<le> 1" by (rule Cons.IH)
    ultimately show ?thesis by simp
  qed
qed

lemma conn_inv_activeSockets:
  assumes "conn_inv s"
  shows "activeSockets s \<le> 1"
proof -
  have "\<exists>k. \<forall>i < length (sockets s). i \<noteq> k \<longrightarrow> inactive (sockets s ! i)"
  proof (cases "socketRef s")
    case None
    with assms show ?thesis by (simp add: conn_inv_def)
  next
    case (Some a)
    with assms have "\<forall>i < length (sockets s). i \<noteq> a \<longrightarrow> inactive (sockets s ! i)"
      by (auto simp: conn_inv_def)
    then show ?thesis ..
  qed
  then obtain k where "\<forall>i < length (sockets s). i \<noteq> k \<longrightarrow> inactive (sockets s ! i)" ..
  then have "\<forall>i < length (sockets s). i \<noteq> k \<longrightarrow>
      \<not> (readyState (sockets s ! i) = CONNECTING \<or> readyState (sockets s ! i) = OPEN)"
    by (simp add: inactive_def)
  then show ?thesis unfolding activeSockets_def by (rule filter_le_one)
qed

lemma conn_inv_cong:
  "conn_inv s \<Longrightarrow> sockets s' = sockets s \<and> socketRef s' = socketRef s \<Longrightarrow> conn_inv s'"
  by (simp add: conn_inv_def cong: option.case_cong)

lemma inactive_closeSocket: "inactive (closeSocket w)"
  by (simp add: closeSocket_def inactive_def)

lemma sockets_applyEffects:
  "sockets (applyEffects now effs s) = sockets s \<and>
   socketRef (applyEffects now effs s) = socketRef s"
proof -
  have "sockets (foldl (\<lambda>a e. applyEffect now e a) s effs) = sockets s \<and>
        socketRef (foldl (\<lambda>a e. applyEffect now e a) s effs) = socketRef s"
  proof (induction effs arbitrary: s)
    case Nil
    show ?case by simp
  next
    case (Cons e effs)
    have "sockets (applyEffect now e s) = sockets s \<and>
          socketRef (applyEffect now e s) = socketRef s"
      by (cases e) (simp_all add: addLog_def)
    with Cons show ?case by simp
  qed
  then show ?thesis by (simp add: applyEffects_def)
qed

lemma conn_inv_handleConnect:
  assumes "conn_inv s"
  shows "conn_inv (handleConnect accepted now s)"
proof (cases "blank (connectionUrl s)")
  case True
  with assms show ?thesis by (simp add: handleConnect_def)
next
  case False
  show ?thesis
  proof (cases "socketRef s")
    case None
    with False assms show ?thesis
      by (auto simp: handleConnect_def connectToSocket_def Let_def conn_inv_def flush_frame
            addLog_def nth_append)
  next
    case (Some k)
    with False assms show ?thesis
      by (auto simp: handleConnect_def connectToSocket_def Let_def conn_inv_def flush_frame
            addLog_def nth_append nth_list_update inactive_closeSocket)
  qed
qed

lemma conn_inv_stopConductor:
  assumes "conn_inv s"
  shows "conn_inv (stopConductor now s)"
  using assms
  by (cases "socketRef s")
     (auto simp: stopConductor_def Let_def conn_inv_def flush_frame addLog_def
        nth_list_update inactive_closeSocket)

lemma conn_inv_socketOpen:
  assumes "conn_inv s"
  shows "conn_inv (socketOpen i now s)"
  using assms
  by (auto simp: socketOpen_def Let_def conn_inv_def flush_frame addLog_def
        nth_list_update inactive_def split: option.splits)

lemma conn_inv_socketClose:
  assumes "conn_inv s"
  shows "conn_inv (socketClose i code now s)"
  using assms
  by (auto simp: socketClose_def Let_def conn_inv_def flush_frame addLog_def
        nth_list_update inactive_def split: option.splits)

lemma foldl_addLog_sockets:
  "sockets (foldl (\<lambda>a (m, ty). addLog now m ty a) s ls) = sockets s \<and>
   socketRef (foldl (\<lambda>a (m, ty). addLog now m ty a) s ls) = socketRef s"
  by (induction ls arbitrary: s) (simp_all add: addLog_def split: prod.splits)

lemma sockets_addLog:
  "sockets (addLog now m ty s) = sockets s \<and> socketRef (addLog now m ty s) = socketRef s"
  by (simp add: addLog_def)

lemma sockets_addLog_undefined:
  "sockets (addLog_undefined now ty s) = sockets s \<and>
   socketRef (addLog_undefined now ty s) = socketRef s"
  by (simp add: addLog_undefined_def)

lemma sockets_onMessage:
  assumes "onMessage now data s = Returned s' \<or> onMessage now data s = Threw e s'"
  shows "sockets s' = sockets s \<and> socketRef s' = socketRef s"
proof (cases data)
  case JNull
  with assms show ?thesis by (auto simp: onMessage_def)
next
  case (JValue d)
  show ?thesis
  proof (cases "d_tasks d = TasksOther")
    case True
    with assms JValue show ?thesis by (auto simp: onMessage_def)
  next
    case False
    let ?s1 = "case d_tasks d of
                 TasksArray ts \<Rightarrow>
                   (setTasks ts s)\<lparr>activeTaskId :=
                      (case find (\<lambda>t. status t = IN_PROGRESS) ts of
                         Some active \<Rightarrow> Some (task_id active)
                       | None \<Rightarrow> None)\<rparr>
               | _ \<Rightarrow> s"
    let ?s2 = "case d_log d of
                 LogAbsent \<Rightarrow> ?s1
               | LogObject m ty \<Rightarrow>
                   (let ty' = (case ty of None \<Rightarrow> Info | Some t \<Rightarrow> t)
                    in case m of
                         Some msg \<Rightarrow> addLog now msg ty' ?s1
                       | None \<Rightarrow> addLog_undefined now ty' ?s1)
               | LogOther \<Rightarrow> addLog_undefined now Info ?s1"
    let ?s3 = "case d_logs d of
                 None \<Rightarrow> ?s2
               | Some ls \<Rightarrow> foldl (\<lambda>a (m, ty). addLog now m ty a) ?s2 ls"
    have 1: "sockets ?s1 = sockets s \<and> socketRef ?s1 = socketRef s"
      by (simp add: setTasks_def split: TasksField.splits)
    have 2: "sockets ?s2 = sockets ?s1 \<and> socketRef ?s2 = socketRef ?s1"
      by (cases "d_log d")
         (simp_all add: sockets_addLog sockets_addLog_undefined Let_def split: option.splits)
    have 3: "sockets ?s3 = sockets ?s2 \<and> socketRef ?s3 = socketRef ?s2"
      by (cases "d_logs d") (simp_all add: foldl_addLog_sockets)
    have "s' = (case d_projectGoal d of
                  GoalAbsent \<Rightarrow> ?s3
                | GoalString g \<Rightarrow> if g = '''' then ?s3 else ?s3\<lparr>goal := GoalText g\<rparr>
                | GoalNonString \<Rightarrow> ?s3\<lparr>goal := GoalOther\<rparr>)"
      using assms JValue False by (simp add: onMessage_def Let_def)
    then have "sockets s' = sockets ?s3 \<and> socketRef s' = socketRef ?s3"
      by (simp split: GoalField.splits)
    with 1 2 3 show ?thesis by simp
  qed
qed

lemma sockets_ws_onmessage:
  "sockets (ws_onmessage now parsed s) = sockets s \<and>
   socketRef (ws_onmessage now parsed s) = socketRef s"
proof (cases parsed)
  case None
  then show ?thesis by (simp add: ws_onmessage_def)
next
  case (Some data)
  show ?thesis
  proof (cases "onMessage now data s")
    case (Returned s')
    then have "sockets s' = sockets s \<and> socketRef s' = socketRef s"
      using sockets_onMessage [of now data s s'] by simp
    with Some Returned show ?thesis by (simp add: ws_onmessage_def)
  next
    case (Threw e s')
    then have "sockets s' = sockets s \<and> socketRef s' = socketRef s"
      using sockets_onMessage [of now data s s' e] by simp
    with Some Threw show ?thesis by (simp add: ws_onmessage_def)
  qed
qed

lemma conn_inv_unmount:
  assumes "conn_inv s"
  shows "conn_inv (unmount s)"
  using assms
  by (cases "socketRef s")
     (auto simp: unmount_def Let_def conn_inv_def nth_list_update inactive_closeSocket)

lemma conn_inv_socketMessage:
  assumes "conn_inv s"
  shows "conn_inv (socketMessage i parsed now s)"
proof -
  let ?s1 = "ws_onmessage now parsed s"
  from assms sockets_ws_onmessage [of now parsed s] have 1: "conn_inv ?s1"
    by (rule conn_inv_cong)
  then have 2: "conn_inv (unmount ?s1)" by (rule conn_inv_unmount)
  have "sockets (flush now ?s1) = sockets ?s1 \<and> socketRef (flush now ?s1) = socketRef ?s1"
    by (simp add: flush_frame)
  with 1 have 3: "conn_inv (flush now ?s1)" by (rule conn_inv_cong)
  from assms 2 3 show ?thesis by (simp add: socketMessage_def Let_def)
qed

lemma conn_inv_afterUnmount:
  assumes "conn_inv s"
  shows "conn_inv (afterUnmount now e s)"
proof (cases e)
  case (LogArrives ld)
  have "sockets (afterUnmount now (LogArrives ld) s) = sockets s \<and>
        socketRef (afterUnmount now (LogArrives ld) s) = socketRef s"
    by (simp split: option.splits)
  with assms have "conn_inv (afterUnmount now (LogArrives ld) s)" by (rule conn_inv_cong)
  with LogArrives show ?thesis by simp
next
  case (SocketOpen i)
  with assms show ?thesis
    by (auto simp: conn_inv_def nth_list_update inactive_def split: option.splits)
next
  case (SocketMessage i parsed)
  have "sockets (afterUnmount now (SocketMessage i parsed) s) = sockets s \<and>
        socketRef (afterUnmount now (SocketMessage i parsed) s) = socketRef s"
    by simp
  with assms have "conn_inv (afterUnmount now (SocketMessage i parsed) s)"
    by (rule conn_inv_cong)
  with SocketMessage show ?thesis by simp
next
  case (SocketError i)
  have "sockets (afterUnmount now (SocketError i) s) = sockets s \<and>
        socketRef (afterUnmount now (SocketError i) s) = socketRef s"
    by simp
  with assms have "conn_inv (afterUnmount now (SocketError i) s)" by (rule conn_inv_cong)
  with SocketError show ?thesis by simp
next
  case (SocketClose i code)
  with assms show ?thesis
    by (auto simp: conn_inv_def nth_list_update inactive_def split: option.splits)
qed (use assms in simp_all)

lemma conn_inv_mounted_step:
  assumes "conn_inv s"
  shows "conn_inv (mounted_step now e s)"
proof (cases e)
  case (Tick r)
  have "sockets (tick (increment_of r) now s) = sockets s \<and>
        socketRef (tick (increment_of r) now s) = socketRef s"
    by (simp add: tick_def Let_def flush_frame sockets_applyEffects setTasks_def
          split: option.splits prod.splits)
  with assms have "conn_inv (tick (increment_of r) now s)" by (rule conn_inv_cong)
  with Tick show ?thesis by simp
next
  case (LogArrives ld)
  have "sockets (logArrives ld now s) = sockets s \<and>
        socketRef (logArrives ld now s) = socketRef s"
    by (simp add: logArrives_def Let_def flush_frame addLog_def setTasks_def split: option.splits)
  with assms have "conn_inv (logArrives ld now s)" by (rule conn_inv_cong)
  with LogArrives show ?thesis by simp
next
  case (Connect accepted)
  with assms show ?thesis by (simp add: conn_inv_handleConnect)
next
  case (SetUrl u)
  have "sockets (s\<lparr>connectionUrl := u\<rparr>) = sockets s \<and>
        socketRef (s\<lparr>connectionUrl := u\<rparr>) = socketRef s"
    by simp
  with assms have "conn_inv (s\<lparr>connectionUrl := u\<rparr>)" by (rule conn_inv_cong)
  with SetUrl show ?thesis by simp
next
  case (SocketOpen i)
  with assms show ?thesis by (simp add: conn_inv_socketOpen)
next
  case (SocketMessage i parsed)
  with assms show ?thesis by (simp add: conn_inv_socketMessage)
next
  case (SocketError i)
  have "sockets (socketError i now s) = sockets s \<and>
        socketRef (socketError i now s) = socketRef s"
    by (simp add: socketError_def Let_def flush_frame addLog_def)
  with assms have "conn_inv (socketError i now s)" by (rule conn_inv_cong)
  with SocketError show ?thesis by simp
next
  case (SocketClose i code)
  with assms show ?thesis by (simp add: conn_inv_socketClose)
next
  case Stop
  with assms show ?thesis by (simp add: conn_inv_stopConductor)
next
  case DemoBegin
  have "sockets (loadDemoMode_begin now s) = sockets s \<and>
        socketRef (loadDemoMode_begin now s) = socketRef s"
    by (simp add: loadDemoMode_begin_def flush_frame addLog_def)
  with assms have "conn_inv (loadDemoMode_begin now s)" by (rule conn_inv_cong)
  with DemoBegin show ?thesis by simp
next
  case (DemoResume ts g)
  have "sockets (loadDemoMode_resume ts g now s) = sockets s \<and>
        socketRef (loadDemoMode_resume ts g now s) = socketRef s"
    by (simp add: loadDemoMode_resume_def Let_def flush_frame addLog_def setTasks_def
          split: option.splits)
  with assms have "conn_inv (loadDemoMode_resume ts g now s)" by (rule conn_inv_cong)
  with DemoResume show ?thesis by simp
next
  case (SetGoal g)
  have "sockets (s\<lparr>goal := GoalText g\<rparr>) = sockets s \<and>
        socketRef (s\<lparr>goal := GoalText g\<rparr>) = socketRef s"
    by simp
  with assms have "conn_inv (s\<lparr>goal := GoalText g\<rparr>)" by (rule conn_inv_cong)
  with SetGoal show ?thesis by simp
next
  case PlanBegin
  have "sockets (handlePlan_begin now s) = sockets s \<and>
        socketRef (handlePlan_begin now s) = socketRef s"
    by (simp add: handlePlan_begin_def flush_frame addLog_def split: GoalValue.splits)
  with assms have "conn_inv (handlePlan_begin now s)" by (rule conn_inv_cong)
  with PlanBegin show ?thesis by simp
next
  case (PlanResume result)
  have "sockets (handlePlan_resume result now s) = sockets s \<and>
        socketRef (handlePlan_resume result now s) = socketRef s"
    by (simp add: handlePlan_resume_def Let_def flush_frame addLog_def setTasks_def
          split: option.splits)
  with assms have "conn_inv (handlePlan_resume result now s)" by (rule conn_inv_cong)
  with PlanResume show ?thesis by simp
qed

lemma conn_inv_step:
  assumes "conn_inv s"
  shows "conn_inv (step now e s)"
  using assms by (simp add: step_def conn_inv_afterUnmount conn_inv_mounted_step)

lemma conn_inv_run: "conn_inv s \<Longrightarrow> conn_inv (run evs s)"
proof (induction evs rule: rev_induct)
  case Nil
  then show ?case by (simp add: run_def)
next
  case (snoc x evs)
  obtain now e where "x = (now, e)" by (cases x)
  with snoc show ?case by (simp add: run_snoc conn_inv_step)
qed

lemma conn_inv_initialApp: "conn_inv initialApp"
  by (simp add: conn_inv_def initialApp_def)

text \<open>
  Claim C8. Whatever happens to the freshly mounted component (connects with URLs the
  browser accepts or rejects, socket events, stops, demo loads, engine events, in any
  order and number), at most one of the sockets it has created is connecting or open. And
  a call of \<^verbatim>\<open>handleConnect\<close> with a non-blank URL while \<open>socketRef\<close> holds a socket first
  calls \<^verbatim>\<open>close()\<close> on that socket, which is then neither connecting nor open, and only
  then calls \<^verbatim>\<open>connectToSocket\<close>: for a URL the browser accepts the new socket is created
  and becomes the one \<open>socketRef\<close> holds; for a URL it rejects no socket is created and
  \<open>socketRef\<close> holds none.
\<close>

theorem at_most_one_connection:
  "activeSockets (run evs initialApp) \<le> 1 \<and>
   (\<not> blank (connectionUrl s) \<and> socketRef s = Some k \<and> k < length (sockets s) \<longrightarrow>
      sockets (handleConnect accepted now s) =
        (sockets s)[k := closeSocket (sockets s ! k)] @
          (case connectToSocket accepted (connectionUrl s) (isRealtime s) of
             Inr ws \<Rightarrow> [ws]
           | Inl e \<Rightarrow> []) \<and>
      socketRef (handleConnect accepted now s) =
        (if accepted then Some (length (sockets s)) else None) \<and>
      readyState (sockets (handleConnect accepted now s) ! k) \<noteq> CONNECTING \<and>
      readyState (sockets (handleConnect accepted now s) ! k) \<noteq> OPEN)"
proof -
  have "conn_inv (run evs initialApp)"
    using conn_inv_initialApp by (rule conn_inv_run)
  then have one: "activeSockets (run evs initialApp) \<le> 1" by (rule conn_inv_activeSockets)
  have two: "sockets (handleConnect accepted now s) =
        (sockets s)[k := closeSocket (sockets s ! k)] @
          (case connectToSocket accepted (connectionUrl s) (isRealtime s) of
             Inr ws \<Rightarrow> [ws]
           | Inl e \<Rightarrow> []) \<and>
      socketRef (handleConnect accepted now s) =
        (if accepted then Some (length (sockets s)) else None) \<and>
      readyState (sockets (handleConnect accepted now s) ! k) \<noteq> CONNECTING \<and>
      readyState (sockets (handleConnect accepted now s) ! k) \<noteq> OPEN"
    if "\<not> blank (connectionUrl s)" "socketRef s = Some k" "k < length (sockets s)"
    using that
    by (cases accepted)
       (simp_all add: handleConnect_def connectToSocket_def Let_def flush_frame addLog_def
          nth_append closeSocket_def)
  from one two show ?thesis by blast
qed

theorem at_most_one_connection_witness:
  "\<not> blank (connectionUrl (run [(0, Connect True)] initialApp)) \<and>
   socketRef (run [(0, Connect True)] initialApp) = Some 0 \<and>
   0 < length (sockets (run [(0, Connect True)] initialApp)) \<and>
   map readyState (sockets (handleConnect True 1 (run [(0, Connect True)] initialApp))) =
     [CLOSING, CONNECTING] \<and>
   socketRef (handleConnect True 1 (run [(0, Connect True)] initialApp)) = Some 1 \<and>
   activeSockets (run [(0, Connect True), (1, Connect True)] initialApp) \<le> 1"
proof -
  let ?s = "run [(0, Connect True)] initialApp"
  have url: "\<not> blank (connectionUrl ?s)" by code_simp
  have ref: "socketRef ?s = Some 0" by code_simp
  have len: "0 < length (sockets ?s)" by code_simp
  have old: "sockets ?s ! 0 =
      \<lparr>ws_url = ''ws://localhost:8080'', readyState = CONNECTING, ws_isRealtime = False\<rparr>"
    by code_simp
  have one: "length (sockets ?s) = 1" by code_simp
  from at_most_one_connection [of "[(0, Connect True), (1, Connect True)]" ?s 0 True 1]
    url ref len
  have "sockets (handleConnect True 1 ?s) =
          (sockets ?s)[0 := closeSocket (sockets ?s ! 0)] @
            (case connectToSocket True (connectionUrl ?s) (isRealtime ?s) of
               Inr ws \<Rightarrow> [ws]
             | Inl e \<Rightarrow> [])"
    and new: "socketRef (handleConnect True 1 ?s) =
                (if True then Some (length (sockets ?s)) else None)"
    and count: "activeSockets (run [(0, Connect True), (1, Connect True)] initialApp) \<le> 1"
    by blast+
  then have "map readyState (sockets (handleConnect True 1 ?s)) =
      map readyState ((sockets ?s)[0 := closeSocket (sockets ?s ! 0)]) @ [CONNECTING]"
    by (simp add: connectToSocket_def)
  also have "map readyState ((sockets ?s)[0 := closeSocket (sockets ?s ! 0)]) = [CLOSING]"
    using one old by (cases "sockets ?s") (simp_all add: closeSocket_def)
  finally have states:
    "map readyState (sockets (handleConnect True 1 ?s)) = [CLOSING, CONNECTING]"
    by simp
  from url ref len states new one count show ?thesis by simp
qed

text \<open>
  The same on a URL that the browser rejects (\<^verbatim>\<open>ftp://x\<close>), entered while the first
  socket is connecting: the first socket is closed, no socket is created, \<open>socketRef\<close>
  holds none, and \<^verbatim>\<open>isProcessing\<close> stays set. And a URL of no-break spaces is blank: the
  guard of \<^verbatim>\<open>handleConnect\<close> returns before anything is closed.
\<close>

lemma rejected_url_closes_and_creates_nothing:
  "map readyState
     (sockets (run [(0, Connect True), (1, SetUrl ''ftp://x''), (2, Connect False)] initialApp)) =
     [CLOSING] \<and>
   socketRef (run [(0, Connect True), (1, SetUrl ''ftp://x''), (2, Connect False)] initialApp) =
     None \<and>
   isProcessing (run [(0, Connect True), (1, SetUrl ''ftp://x''), (2, Connect False)] initialApp) \<and>
   run [(0, Connect True), (1, SetUrl [CHR 0xA0, CHR 0xA0]), (2, Connect True)] initialApp =
     run [(0, Connect True), (1, SetUrl [CHR 0xA0, CHR 0xA0])] initialApp"
  by code_simp

section \<open>Malformed feed payloads\<close>

lemma flush_stable_id: "stable s \<Longrightarrow> flush now s = s"
  by (simp add: flush_def render_stable)

text \<open>
  What \<^verbatim>\<open>ws.onmessage\<close> does drop: a payload that does not parse, the payload \<^verbatim>\<open>null\<close>, and
  a payload that has none of the four keys. The first two leave a line on the console,
  the third leaves nothing.
\<close>

lemma payloads_that_are_dropped:
  "ws_onmessage now None s =
     s\<lparr>console := console s @ [''Failed to parse WebSocket message'']\<rparr> \<and>
   ws_onmessage now (Some JNull) s =
     s\<lparr>console := console s @ [''Failed to parse WebSocket message'']\<rparr> \<and>
   ws_onmessage now (Some (JValue noFields)) s = s"
  by (simp add: ws_onmessage_def onMessage_def noFields_def)

text \<open>
  Claim C9, which the code does not keep. The adapter runs \<^verbatim>\<open>JSON.parse\<close> and the message
  handler inside one \<^verbatim>\<open>try\<close>, and the handler tests \<^verbatim>\<open>data.logs\<close> with \<^verbatim>\<open>Array.isArray\<close>; but
  it tests \<^verbatim>\<open>data.tasks\<close>, \<^verbatim>\<open>data.log\<close> and \<^verbatim>\<open>data.projectGoal\<close> for truthiness only. So a
  payload that matches no recognised shape is applied as far as the handler gets. In the
  live session:

    \<^item> on \<^verbatim>\<open>{"tasks": 5}\<close> the handler has called \<^verbatim>\<open>setTasks(5)\<close> when \<^verbatim>\<open>data.tasks.find\<close>
      throws; the exception is caught, but the task state is the number 5, the render
      that follows throws, the component is removed, and its cleanup closes the socket;
    \<^item> on \<^verbatim>\<open>{"projectGoal": 7}\<close> the goal state becomes the number 7;
    \<^item> on \<^verbatim>\<open>{"log": "hello"}\<close> an entry without a message is appended to the global log.
\<close>

theorem malformed_payload_is_applied:
  "readyState (sockets liveSession ! 0) = OPEN \<and>
   \<not> tasksOther liveSession \<and> \<not> unmounted liveSession \<and>
   goal liveSession = GoalText '''' \<and>
   onMessage 2 (JValue tasksFive) liveSession =
     Threw TypeError (liveSession\<lparr>tasksOther := True, tasksRef := Suc (tasksRef liveSession)\<rparr>) \<and>
   tasksOther (run [(2, SocketMessage 0 (Some (JValue tasksFive)))] liveSession) \<and>
   unmounted (run [(2, SocketMessage 0 (Some (JValue tasksFive)))] liveSession) \<and>
   readyState (sockets (run [(2, SocketMessage 0 (Some (JValue tasksFive)))] liveSession) ! 0) =
     CLOSING \<and>
   goal (run [(2, SocketMessage 0 (Some (JValue goalSeven)))] liveSession) = GoalOther \<and>
   globalLogs (run [(2, SocketMessage 0 (Some (JValue logHello)))] liveSession) =
     globalLogs liveSession @ [NoMessage 2 Info]"
proof -
  have 1: "readyState (sockets liveSession ! 0) = OPEN" by code_simp
  have 2: "\<not> tasksOther liveSession" by code_simp
  have 3: "\<not> unmounted liveSession" by code_simp
  have 4: "goal liveSession = GoalText ''''" by code_simp
  have 5: "onMessage 2 (JValue tasksFive) liveSession =
      Threw TypeError (liveSession\<lparr>tasksOther := True, tasksRef := Suc (tasksRef liveSession)\<rparr>)"
    by (simp add: onMessage_def tasksFive_def noFields_def)
  have 6: "tasksOther (run [(2, SocketMessage 0 (Some (JValue tasksFive)))] liveSession)"
    by code_simp
  have 7: "unmounted (run [(2, SocketMessage 0 (Some (JValue tasksFive)))] liveSession)"
    by code_simp
  have 8: "readyState
      (sockets (run [(2, SocketMessage 0 (Some (JValue tasksFive)))] liveSession) ! 0) = CLOSING"
    by code_simp
  have 9: "goal (run [(2, SocketMessage 0 (Some (JValue goalSeven)))] liveSession) = GoalOther"
    by code_simp
  have 10: "globalLogs (run [(2, SocketMessage 0 (Some (JValue logHello)))] liveSession) =
      globalLogs liveSession @ [NoMessage 2 Info]"
    by code_simp
  from 1 2 3 4 5 6 7 8 9 10 show ?thesis by blast
qed

section \<open>The engine, cycle by cycle\<close>

lemma render_stopped:
  assumes "\<not> isRunning s" "timer s = None \<or> \<not> stable s"
  shows "\<not> isRunning (render now s) \<and> timer (render now s) = None \<and>
         globalLogs (render now s) = globalLogs s"
  using assms by (auto simp: render_def stable_def effect_def Let_def)

lemma flush_stopped:
  assumes "\<not> isRunning s" "timer s = None \<or> \<not> stable s"
  shows "\<not> isRunning (flush now s) \<and> timer (flush now s) = None \<and>
         globalLogs (flush now s) = globalLogs s"
proof -
  let ?s1 = "render now s" and ?s2 = "render now (render now s)"
  from assms have 1: "\<not> isRunning ?s1 \<and> timer ?s1 = None \<and> globalLogs ?s1 = globalLogs s"
    by (rule render_stopped)
  then have 2: "\<not> isRunning ?s2 \<and> timer ?s2 = None \<and> globalLogs ?s2 = globalLogs ?s1"
    by (intro render_stopped) simp_all
  then have "\<not> isRunning (render now ?s2) \<and> timer (render now ?s2) = None \<and>
      globalLogs (render now ?s2) = globalLogs ?s2"
    by (intro render_stopped) simp_all
  with 1 2 show ?thesis by (simp add: flush_def)
qed

lemma flush_simulating_done:
  assumes "isRunning s" "\<not> isRealtime s" "\<not> stable s" "allCompleted (tasks s)" "tasks s \<noteq> []"
  shows "\<not> isRunning (flush now s) \<and> timer (flush now s) = None \<and>
         globalLogs (flush now s) = globalLogs s"
proof -
  let ?s1 = "render now s"
  from assms have 1: "\<not> isRunning ?s1 \<and> timer ?s1 = None \<and> globalLogs ?s1 = globalLogs s"
    by (simp add: render_def stable_def effect_def Let_def allCompleted_def)
  then have 2: "\<not> isRunning (render now ?s1) \<and> timer (render now ?s1) = None \<and>
      globalLogs (render now ?s1) = globalLogs ?s1"
    by (intro render_stopped) simp_all
  then have "\<not> isRunning (render now (render now ?s1)) \<and>
      timer (render now (render now ?s1)) = None \<and>
      globalLogs (render now (render now ?s1)) = globalLogs (render now ?s1)"
    by (intro render_stopped) simp_all
  with 1 2 show ?thesis by (simp add: flush_def)
qed

lemma flush_simulating_armed:
  assumes "isRunning s" "\<not> isRealtime s" "\<not> stable s" "\<not> (allCompleted (tasks s) \<and> tasks s \<noteq> [])"
  shows "isRunning (flush now s) \<and>
         timer (flush now s) = Some \<lparr>c_tasks = tasks s, c_activeTaskId = activeTaskId s,
                                      c_isRunning = True\<rparr> \<and>
         activeTaskId (flush now s) = activeTaskId s \<and>
         globalLogs (flush now s) =
           (if processingRef s then globalLogs s
            else appendLog (Line \<lparr>timestamp = now, message = ''Conductor simulation engine started.'',
                             severity = Success\<rparr>) (globalLogs s))"
proof -
  let ?s1 = "render now s"
  from assms have 1: "isRunning ?s1 \<and>
         timer ?s1 = Some \<lparr>c_tasks = tasks s, c_activeTaskId = activeTaskId s,
                                      c_isRunning = True\<rparr> \<and>
         activeTaskId ?s1 = activeTaskId s \<and>
         globalLogs ?s1 =
           (if processingRef s then globalLogs s
            else appendLog (Line \<lparr>timestamp = now, message = ''Conductor simulation engine started.'',
                             severity = Success\<rparr>) (globalLogs s))"
    by (auto simp: render_def stable_def effect_def Let_def allCompleted_def addLog_def)
  from assms have "stable ?s1"
    by (auto simp: render_def stable_def effect_def Let_def allCompleted_def addLog_def deps_def)
  then have "flush now s = ?s1" by (simp add: flush_def render_stable)
  with 1 show ?thesis by simp
qed

lemma no_match_appendLog:
  assumes "filter P buf = []" "\<not> P e"
  shows "filter P (appendLog e buf) = []"
proof -
  have "set (slice_last 99 buf) \<subseteq> set buf"
    unfolding slice_last_def by (rule set_drop_subset)
  with assms show ?thesis by (auto simp: appendLog_def filter_empty_conv)
qed

lemma tickUpdater_effects:
  assumes "\<not> allCompleted ts"
  shows "snd (tickUpdater b inc ts) = [] \<or> (\<exists>x. snd (tickUpdater b inc ts) = [SetActiveTaskId x])"
  using assms
  by (auto simp: tickUpdater_def allCompleted_def Let_def split: option.splits)

lemma tick_ready:
  assumes ready: "engineReady s" and busy: "\<not> allCompleted (tasks s)"
    and zero: "allDoneLogs s = 0"
  shows "tasks (tick inc now s) = upd inc (tasks s) \<and>
         stable (tick inc now s) \<and> \<not> isRealtime (tick inc now s) \<and>
         allDoneLogs (tick inc now s) = 0 \<and>
         inflight (tick inc now s) =
           logRequest \<lparr>c_tasks = tasks s, c_activeTaskId = activeTaskId s, c_isRunning = True\<rparr> \<and>
         processingRef (tick inc now s) = (inflight (tick inc now s) \<noteq> None) \<and>
         (if allCompleted (upd inc (tasks s))
          then \<not> isRunning (tick inc now s) \<and> timer (tick inc now s) = None
          else isRunning (tick inc now s) \<and>
               timer (tick inc now s) =
                 Some \<lparr>c_tasks = upd inc (tasks s),
                       c_activeTaskId = activeTaskId (tick inc now s), c_isRunning = True\<rparr>)"
proof -
  let ?c = "\<lparr>c_tasks = tasks s, c_activeTaskId = activeTaskId s, c_isRunning = True\<rparr>"
  from ready busy have tm: "timer s = Some ?c" and run: "isRunning s"
    and idle: "\<not> processingRef s" "inflight s = None" and live: "\<not> isRealtime s"
    and st: "stable s" and ne: "tasks s \<noteq> []"
    by (simp_all add: engineReady_def)
  obtain newTasks effs where u: "tickUpdater True inc (tasks s) = (newTasks, effs)"
    by (cases "tickUpdater True inc (tasks s)")
  then have nt: "newTasks = upd inc (tasks s)" by (simp add: upd_def)
  have len: "length newTasks = length (tasks s)"
    unfolding nt upd_def by (rule length_tickUpdater)
  with ne have ne': "newTasks \<noteq> []" by auto
  from tickUpdater_effects [OF busy, of True inc] u
  have effs: "effs = [] \<or> (\<exists>x. effs = [SetActiveTaskId x])" by simp
  then have nostop: "DeferStop \<notin> set effs" by auto
  define s1 where "s1 = applyEffects now effs (setTasks newTasks (s\<lparr>processingRef := True\<rparr>))"
  define s2 where "s2 = (case logRequest ?c of
                           Some r \<Rightarrow> s1\<lparr>inflight := Some r\<rparr>
                         | None \<Rightarrow> s1\<lparr>processingRef := False\<rparr>)"
  have t: "tick inc now s = flush now s2"
    unfolding s2_def s1_def using tm idle u nostop by (simp add: tick_def Let_def)
  from effs have s1: "tasks s1 = newTasks" "isRunning s1 = isRunning s"
      "isRealtime s1 = isRealtime s" "globalLogs s1 = globalLogs s"
      "effectDeps s1 = effectDeps s" "tasksRef s1 = Suc (tasksRef s)" "processingRef s1"
      "inflight s1 = inflight s"
    by (auto simp: s1_def applyEffects_def setTasks_def)
  then have s2: "tasks s2 = newTasks" "isRunning s2" "\<not> isRealtime s2"
      "globalLogs s2 = globalLogs s" "effectDeps s2 = effectDeps s"
      "tasksRef s2 = Suc (tasksRef s)" "inflight s2 = logRequest ?c"
      "processingRef s2 = (logRequest ?c \<noteq> None)"
    using run live idle by (auto simp: s2_def split: option.splits)
  from st s2 have unstable: "\<not> stable s2" by (auto simp: stable_def deps_def)
  have fr: "tasks (flush now s2) = newTasks" "\<not> isRealtime (flush now s2)"
      "inflight (flush now s2) = logRequest ?c"
      "processingRef (flush now s2) = (logRequest ?c \<noteq> None)"
    using s2 by (simp_all add: flush_frame)
  have logs: "allDoneLogs (flush now s2) = 0 \<and>
      (if allCompleted newTasks
       then \<not> isRunning (flush now s2) \<and> timer (flush now s2) = None
       else isRunning (flush now s2) \<and>
            timer (flush now s2) =
              Some \<lparr>c_tasks = newTasks, c_activeTaskId = activeTaskId (flush now s2),
                    c_isRunning = True\<rparr>)"
  proof (cases "allCompleted newTasks")
    case True
    with s2 ne' unstable
    have "\<not> isRunning (flush now s2) \<and> timer (flush now s2) = None \<and>
           globalLogs (flush now s2) = globalLogs s2"
      by (intro flush_simulating_done) simp_all
    with True zero s2 show ?thesis by (simp add: allDoneLogs_def)
  next
    case False
    with s2 unstable
    have a: "isRunning (flush now s2) \<and>
         timer (flush now s2) = Some \<lparr>c_tasks = tasks s2, c_activeTaskId = activeTaskId s2,
                                      c_isRunning = True\<rparr> \<and>
         activeTaskId (flush now s2) = activeTaskId s2 \<and>
         globalLogs (flush now s2) =
           (if processingRef s2 then globalLogs s2
            else appendLog (Line \<lparr>timestamp = now, message = ''Conductor simulation engine started.'',
                             severity = Success\<rparr>) (globalLogs s2))"
      by (intro flush_simulating_armed) simp_all
    have "allDoneLogs (flush now s2) = 0"
    proof (cases "processingRef s2")
      case True
      with a zero s2 show ?thesis by (simp add: allDoneLogs_def)
    next
      case False
      have "filter (\<lambda>l. lineMessage l = Some ''All tasks completed successfully.'')
              (appendLog (Line \<lparr>timestamp = now, message = ''Conductor simulation engine started.'',
                           severity = Success\<rparr>) (globalLogs s)) = []"
        using zero by (intro no_match_appendLog) (simp_all add: allDoneLogs_def)
      with a False s2 show ?thesis by (simp add: allDoneLogs_def)
    qed
    with a False s2 show ?thesis by simp
  qed
  from fr logs show ?thesis unfolding t nt [symmetric] by (simp add: flush_stable)
qed

lemma allCompleted_logs:
  "allCompleted (map (\<lambda>t. if P t then t\<lparr>logs := f t\<rparr> else t) ts) = allCompleted ts"
  by (induction ts) (simp_all add: allCompleted_def)

lemma withoutLogs_logs:
  "withoutLogs (map (\<lambda>t. if P t then t\<lparr>logs := f t\<rparr> else t) ts) = withoutLogs ts"
  by (induction ts) (simp_all add: withoutLogs_def)

lemma logArrives_ready:
  assumes st: "stable s" and live: "\<not> isRealtime s" and ne: "tasks s \<noteq> []"
    and zero: "allDoneLogs s = 0"
    and flag: "processingRef s = (inflight s \<noteq> None)"
    and tm: "if allCompleted (tasks s) then \<not> isRunning s \<and> timer s = None
             else isRunning s \<and>
                  timer s = Some \<lparr>c_tasks = tasks s, c_activeTaskId = activeTaskId s,
                                  c_isRunning = True\<rparr>"
  shows "engineReady (logArrives ld now s) \<and> allDoneLogs (logArrives ld now s) = 0 \<and>
         withoutLogs (tasks (logArrives ld now s)) = withoutLogs (tasks s)"
proof (cases "inflight s")
  case None
  with assms show ?thesis by (simp add: logArrives_def engineReady_def)
next
  case (Some r)
  let ?entry = "\<lparr>timestamp = now, message = ld_message ld, severity = ld_type ld\<rparr>"
  let ?ts = "map (\<lambda>t. if task_id t = r_activeTaskId r
                        then t\<lparr>logs := logs t @ [?entry]\<rparr> else t) (tasks s)"
  let ?line = "Line \<lparr>timestamp = now,
                      message = ''['' @ title (r_currentTask r) @ ''] '' @ ld_message ld,
                      severity = ld_type ld\<rparr>"
  define s4 where "s4 = (addLog now (''['' @ title (r_currentTask r) @ ''] '' @ ld_message ld)
                           (ld_type ld) (setTasks ?ts s))\<lparr>processingRef := False, inflight := None\<rparr>"
  have l: "logArrives ld now s = flush now s4"
    unfolding s4_def using Some by (simp add: logArrives_def Let_def)
  have s4: "tasks s4 = ?ts" "isRunning s4 = isRunning s" "\<not> isRealtime s4"
      "globalLogs s4 = appendLog ?line (globalLogs s)" "effectDeps s4 = effectDeps s"
      "tasksRef s4 = Suc (tasksRef s)" "inflight s4 = None" "\<not> processingRef s4"
      "activeTaskId s4 = activeTaskId s"
    using live by (simp_all add: s4_def addLog_def setTasks_def)
  from st s4 have unstable: "\<not> stable s4" by (auto simp: stable_def deps_def)
  have dn: "allCompleted (tasks s4) = allCompleted (tasks s)"
    unfolding s4(1) by (rule allCompleted_logs)
  from ne s4 have ne4: "tasks s4 \<noteq> []" by simp
  have zero4: "filter (\<lambda>l. lineMessage l = Some ''All tasks completed successfully.'') (globalLogs s4) = []"
    unfolding s4(4) using zero by (intro no_match_appendLog) (simp_all add: allDoneLogs_def)
  have fr: "tasks (flush now s4) = tasks s4" "\<not> isRealtime (flush now s4)"
      "inflight (flush now s4) = None" "\<not> processingRef (flush now s4)"
    using s4 by (simp_all add: flush_frame)
  have wl: "withoutLogs (tasks s4) = withoutLogs (tasks s)"
    unfolding s4(1) by (rule withoutLogs_logs)
  show ?thesis
  proof (cases "allCompleted (tasks s)")
    case True
    with tm s4 have "\<not> isRunning s4" by simp
    with unstable
    have "\<not> isRunning (flush now s4) \<and> timer (flush now s4) = None \<and>
           globalLogs (flush now s4) = globalLogs s4"
      by (intro flush_stopped) simp_all
    with True dn fr ne4 zero4 wl show ?thesis
      unfolding l by (simp add: engineReady_def flush_stable allDoneLogs_def)
  next
    case False
    with tm s4 dn unstable
    have a: "isRunning (flush now s4) \<and>
         timer (flush now s4) = Some \<lparr>c_tasks = tasks s4, c_activeTaskId = activeTaskId s4,
                                      c_isRunning = True\<rparr> \<and>
         activeTaskId (flush now s4) = activeTaskId s4 \<and>
         globalLogs (flush now s4) =
           (if processingRef s4 then globalLogs s4
            else appendLog (Line \<lparr>timestamp = now, message = ''Conductor simulation engine started.'',
                             severity = Success\<rparr>) (globalLogs s4))"
      by (intro flush_simulating_armed) simp_all
    have "filter (\<lambda>l. lineMessage l = Some ''All tasks completed successfully.'')
            (appendLog (Line \<lparr>timestamp = now, message = ''Conductor simulation engine started.'',
                         severity = Success\<rparr>) (globalLogs s4)) = []"
      using zero4 by (rule no_match_appendLog) simp
    with a s4 have "allDoneLogs (flush now s4) = 0" by (simp add: allDoneLogs_def)
    with a False dn fr ne4 wl show ?thesis
      unfolding l by (simp add: engineReady_def flush_stable)
  qed
qed

lemma upd_allCompleted: "allCompleted ts \<Longrightarrow> upd inc ts = ts"
proof -
  assume a: "allCompleted ts"
  then have "\<forall>t \<in> set ts. status t = COMPLETED" by (simp add: allCompleted_def list_all_iff)
  then have "findIndex (\<lambda>t. status t = IN_PROGRESS) ts = None"
      "findIndex (\<lambda>t. status t = PENDING) ts = None"
    by (simp_all add: findIndex_None_iff)
  then show ?thesis by (simp add: upd_def tickUpdater_def)
qed

lemma length_upd: "length (upd inc ts) = length ts"
  by (simp add: upd_def length_tickUpdater)

lemma cycle_ready:
  assumes ready: "engineReady s" and zero: "allDoneLogs s = 0"
  shows "engineReady (cycle (inc, now, ld) s) \<and> allDoneLogs (cycle (inc, now, ld) s) = 0 \<and>
         withoutLogs (tasks (cycle (inc, now, ld) s)) = withoutLogs (upd inc (tasks s))"
proof (cases "allCompleted (tasks s)")
  case True
  with ready have "timer s = None" "inflight s = None" by (simp_all add: engineReady_def)
  then have "cycle (inc, now, ld) s = s" by (simp add: cycle_def tick_def logArrives_def)
  with ready zero True show ?thesis by (simp add: upd_allCompleted)
next
  case False
  let ?s = "tick inc now s"
  note t = tick_ready [OF ready False zero, of inc now]
  from ready have "tasks s \<noteq> []" by (simp add: engineReady_def)
  then have ne: "upd inc (tasks s) \<noteq> []" using length_upd [of inc "tasks s"] by auto
  have "engineReady (logArrives ld now ?s) \<and> allDoneLogs (logArrives ld now ?s) = 0 \<and>
         withoutLogs (tasks (logArrives ld now ?s)) = withoutLogs (tasks ?s)"
  proof (rule logArrives_ready)
    show "stable ?s" "\<not> isRealtime ?s" "allDoneLogs ?s = 0"
        "processingRef ?s = (inflight ?s \<noteq> None)"
      using t by simp_all
    show "tasks ?s \<noteq> []" using t ne by simp
    show "if allCompleted (tasks ?s) then \<not> isRunning ?s \<and> timer ?s = None
          else isRunning ?s \<and>
               timer ?s = Some \<lparr>c_tasks = tasks ?s, c_activeTaskId = activeTaskId ?s,
                                 c_isRunning = True\<rparr>"
      using t by simp
  qed
  with t show ?thesis by (simp add: cycle_def)
qed

lemma findIndex_map: "findIndex P (map f xs) = findIndex (\<lambda>x. P (f x)) xs"
  by (induction xs) simp_all

lemma findIndex_status:
  "findIndex (\<lambda>t. status t = x) ts = findIndex (\<lambda>p. fst p = x) (withoutLogs ts)"
  by (simp add: withoutLogs_def findIndex_map)

lemma withoutLogs_nth: "i < length ts \<Longrightarrow> withoutLogs ts ! i = (status (ts ! i), progress (ts ! i))"
  by (simp add: withoutLogs_def)

lemma withoutLogs_upd:
  assumes "withoutLogs ts = withoutLogs ts'"
  shows "withoutLogs (upd inc ts) = withoutLogs (upd inc ts')"
proof -
  have len: "length ts = length ts'"
    using assms unfolding withoutLogs_def by (rule map_eq_imp_length_eq)
  have nth: "status (ts ! i) = status (ts' ! i) \<and> progress (ts ! i) = progress (ts' ! i)"
    if "i < length ts" for i
    using withoutLogs_nth [of i ts] withoutLogs_nth [of i ts'] that len assms by simp
  have ip: "findIndex (\<lambda>t. status t = IN_PROGRESS) ts = findIndex (\<lambda>t. status t = IN_PROGRESS) ts'"
    and pe: "findIndex (\<lambda>t. status t = PENDING) ts = findIndex (\<lambda>t. status t = PENDING) ts'"
    using assms by (simp_all add: findIndex_status)
  have up: "withoutLogs (xs[i := y]) = (withoutLogs xs)[i := (status y, progress y)]"
    for xs i y
    by (simp add: withoutLogs_def map_update)
  show ?thesis
  proof (cases "findIndex (\<lambda>t. status t = IN_PROGRESS) ts")
    case None
    with ip have None': "findIndex (\<lambda>t. status t = IN_PROGRESS) ts' = None" by simp
    show ?thesis
    proof (cases "findIndex (\<lambda>t. status t = PENDING) ts")
      case n: None
      with pe have "findIndex (\<lambda>t. status t = PENDING) ts' = None" by simp
      with None None' n have "upd inc ts = ts" "upd inc ts' = ts'"
        by (simp_all add: upd_def tickUpdater_def)
      with assms show ?thesis by simp
    next
      case (Some i)
      with pe have "findIndex (\<lambda>t. status t = PENDING) ts' = Some i" by simp
      with None None' Some
      have "upd inc ts = ts[i := (ts ! i)\<lparr>status := IN_PROGRESS, progress := 5\<rparr>]"
        "upd inc ts' = ts'[i := (ts' ! i)\<lparr>status := IN_PROGRESS, progress := 5\<rparr>]"
        by (simp_all add: upd_def tickUpdater_def)
      then have "withoutLogs (upd inc ts) = (withoutLogs ts)[i := (IN_PROGRESS, 5)]"
        "withoutLogs (upd inc ts') = (withoutLogs ts')[i := (IN_PROGRESS, 5)]"
        by (simp_all add: up)
      with assms show ?thesis by simp
    qed
  next
    case (Some i)
    with ip have Some': "findIndex (\<lambda>t. status t = IN_PROGRESS) ts' = Some i" by simp
    from Some have "i < length ts" by (rule findIndex_Some_less)
    then have p: "progress (ts' ! i) = progress (ts ! i)" using nth by simp
    let ?p = "min (progress (ts ! i) + inc) 100"
    let ?st = "if 100 \<le> ?p then COMPLETED else IN_PROGRESS"
    from Some findIndex_Some_holds [OF Some]
    have "withoutLogs (upd inc ts) = (withoutLogs ts)[i := (?st, ?p)]"
      by (simp add: upd_def tickUpdater_def Let_def up)
    moreover from Some' p findIndex_Some_holds [OF Some']
    have "withoutLogs (upd inc ts') = (withoutLogs ts')[i := (?st, ?p)]"
      by (simp add: upd_def tickUpdater_def Let_def up)
    ultimately show ?thesis using assms by simp
  qed
qed

lemma cycles_snoc: "cycles (xs @ [x]) s = cycle x (cycles xs s)"
  by (simp add: cycles_def)

lemma cycles_ready:
  assumes "engineReady s" "allDoneLogs s = 0"
  shows "engineReady (cycles xs s) \<and> allDoneLogs (cycles xs s) = 0 \<and>
         withoutLogs (tasks (cycles xs s)) =
           withoutLogs (foldl (\<lambda>ts x. upd (fst x) ts) (tasks s) xs)"
proof (induction xs rule: rev_induct)
  case Nil
  from assms show ?case by (simp add: cycles_def)
next
  case (snoc x xs)
  obtain inc now ld where x: "x = (inc, now, ld)" by (cases x)
  let ?s = "cycles xs s"
  from snoc have r: "engineReady ?s" and z: "allDoneLogs ?s = 0"
    and w: "withoutLogs (tasks ?s) = withoutLogs (foldl (\<lambda>ts x. upd (fst x) ts) (tasks s) xs)"
    by simp_all
  from cycle_ready [OF r z, of inc now ld] withoutLogs_upd [OF w, of inc]
  show ?case by (simp add: cycles_snoc x)
qed

lemma engineReady_running:
  "engineReady s \<Longrightarrow> isRunning s = (\<not> allCompleted (tasks s))"
  by (simp add: engineReady_def split: if_splits)

lemma simulationOn_ready:
  assumes "ts \<noteq> []"
  shows "engineReady (simulationOn ts) \<and> allDoneLogs (simulationOn ts) = 0 \<and>
         tasks (simulationOn ts) = ts"
proof -
  define s0 where "s0 = loadDemoMode_begin 0 initialApp"
  have "stable (addLog 0 ''Loading Demo Simulation...'' Info (initialApp\<lparr>isProcessing := True\<rparr>))"
    by (simp add: stable_def addLog_def initialApp_def deps_def)
  then have s0: "s0 = addLog 0 ''Loading Demo Simulation...'' Info (initialApp\<lparr>isProcessing := True\<rparr>)"
    by (simp add: s0_def loadDemoMode_begin_def flush_stable_id)
  define s3 where "s3 = (addLog 0 ''Demo loaded. This is a simulation, not real data.'' Warning
      ((case find (\<lambda>t. status t = IN_PROGRESS) ts of
          Some active \<Rightarrow>
            ((setTasks ts s0)\<lparr>goal := GoalText ''''\<rparr>)\<lparr>activeTaskId := Some (task_id active)\<rparr>
        | None \<Rightarrow> (setTasks ts s0)\<lparr>goal := GoalText ''''\<rparr>)
       \<lparr>isRealtime := False, isRunning := True\<rparr>))\<lparr>isProcessing := False\<rparr>"
  have sim: "simulationOn ts = flush 0 s3"
    unfolding s3_def s0_def by (simp add: simulationOn_def loadDemoMode_resume_def Let_def)
  have s3: "tasks s3 = ts" "isRunning s3" "\<not> isRealtime s3" "\<not> processingRef s3"
      "inflight s3 = None" "effectDeps s3 = Some (False, False, None, 0)" "tasksRef s3 = 1"
      "globalLogs s3 =
         [Line \<lparr>timestamp = 0, message = ''Loading Demo Simulation...'', severity = Info\<rparr>,
          Line \<lparr>timestamp = 0, message = ''Demo loaded. This is a simulation, not real data.'',
                severity = Warning\<rparr>]"
    unfolding s3_def s0
    by (simp_all add: addLog_def setTasks_def initialApp_def appendLog_def slice_last_def
          split: option.splits)
  then have unstable: "\<not> stable s3" by (simp add: stable_def deps_def)
  have fr: "tasks (flush 0 s3) = ts" "\<not> isRealtime (flush 0 s3)"
      "inflight (flush 0 s3) = None" "\<not> processingRef (flush 0 s3)"
    using s3 by (simp_all add: flush_frame)
  show ?thesis
  proof (cases "allCompleted ts")
    case True
    with s3 assms unstable
    have "\<not> isRunning (flush 0 s3) \<and> timer (flush 0 s3) = None \<and>
           globalLogs (flush 0 s3) = globalLogs s3"
      by (intro flush_simulating_done) simp_all
    with True fr assms s3 show ?thesis
      unfolding sim by (simp add: engineReady_def flush_stable allDoneLogs_def)
  next
    case False
    with s3 unstable
    have "isRunning (flush 0 s3) \<and>
         timer (flush 0 s3) = Some \<lparr>c_tasks = tasks s3, c_activeTaskId = activeTaskId s3,
                                      c_isRunning = True\<rparr> \<and>
         activeTaskId (flush 0 s3) = activeTaskId s3 \<and>
         globalLogs (flush 0 s3) =
           (if processingRef s3 then globalLogs s3
            else appendLog (Line \<lparr>timestamp = 0, message = ''Conductor simulation engine started.'',
                             severity = Success\<rparr>) (globalLogs s3))"
      by (intro flush_simulating_armed) simp_all
    with False fr assms s3 show ?thesis
      unfolding sim
      by (simp add: engineReady_def flush_stable allDoneLogs_def appendLog_def slice_last_def)
  qed
qed

section \<open>A log line that arrives after the switch to live mode\<close>




section \<open>The close event of the feed\<close>

text \<open>
  Claim C2 against the code. The user connects on the fresh component, the socket opens
  and the session is live; the feed delivers a snapshot of two tasks, one in progress, and
  the connection closes with code 1006. The close callback tests the \<^verbatim>\<open>isRealtime\<close> it
  closed over when \<^verbatim>\<open>handleConnect\<close> ran, which is false. So the socket is closed, but
  the session still counts as live and running, the global log holds no warning, and no
  entry of it contains 1006.
\<close>

theorem close_event_after_connect_is_ignored:
  "isRealtime liveSession \<and> isRunning liveSession \<and>
   map readyState (sockets feedClosed) = [CLOSED] \<and>
   isRealtime feedClosed \<and> isRunning feedClosed \<and>
   filter (\<lambda>l. lineSeverity l = Warning) (globalLogs feedClosed) = [] \<and>
   list_all (\<lambda>l. case lineMessage l of
                    Some m \<Rightarrow> \<not> containsText m ''1006''
                  | None \<Rightarrow> False) (globalLogs feedClosed)"
  by code_simp

section \<open>The undisturbed simulation, event by event\<close>

lemma engineReady_Ok: "engineReady s \<Longrightarrow> engineOk s"
  by (simp add: engineReady_def engineOk_def)

lemma engineOk_afterUnmount:
  assumes ok: "engineOk s" and zero: "allDoneLogs s = 0" and ev: "engine_event e"
  shows "engineOk (afterUnmount now e s) \<and> allDoneLogs (afterUnmount now e s) = 0"
proof (cases e)
  case (LogArrives ld)
  with ok zero show ?thesis
    by (cases "inflight s")
       (simp_all add: engineOk_def stable_def deps_def allDoneLogs_def)
qed (use ok zero ev in simp_all)

lemma engineOk_mounted_step:
  assumes ok: "engineOk s" and zero: "allDoneLogs s = 0" and ev: "engine_event e"
  shows "engineOk (mounted_step now e s) \<and> allDoneLogs (mounted_step now e s) = 0"
proof (cases e)
  case (Tick r)
  show ?thesis
  proof (cases "inflight s = None \<and> \<not> allCompleted (tasks s)")
    case True
    with ok have ready: "engineReady s" by (simp add: engineReady_def engineOk_def)
    from True have busy: "\<not> allCompleted (tasks s)" by simp
    note t = tick_ready [OF ready busy zero, of "increment_of r" now]
    from ok have "tasks s \<noteq> []" by (simp add: engineOk_def)
    then have "upd (increment_of r) (tasks s) \<noteq> []"
      using length_upd [of "increment_of r" "tasks s"] by auto
    with t Tick show ?thesis by (simp add: engineOk_def)
  next
    case False
    with ok have "timer s = None \<or> processingRef s" by (auto simp: engineOk_def)
    then have "tick (increment_of r) now s = s" by (auto simp: tick_def split: option.splits)
    with ok zero Tick show ?thesis by simp
  qed
next
  case (LogArrives ld)
  have "engineReady (logArrives ld now s) \<and> allDoneLogs (logArrives ld now s) = 0 \<and>
         withoutLogs (tasks (logArrives ld now s)) = withoutLogs (tasks s)"
    using ok zero by (intro logArrives_ready) (simp_all add: engineOk_def)
  with LogArrives show ?thesis by (simp add: engineReady_Ok)
qed (use ev in simp_all)

lemma engineOk_step:
  assumes ok: "engineOk s" and zero: "allDoneLogs s = 0" and ev: "engine_event e"
  shows "engineOk (step now e s) \<and> allDoneLogs (step now e s) = 0"
  using engineOk_afterUnmount [OF assms, of now] engineOk_mounted_step [OF assms, of now]
  by (simp add: step_def)

lemma engineOk_run:
  assumes "engineOk s" "allDoneLogs s = 0" "list_all (\<lambda>(now, e). engine_event e) evs"
  shows "engineOk (run evs s) \<and> allDoneLogs (run evs s) = 0"
  using assms(3)
proof (induction evs rule: rev_induct)
  case Nil
  from assms(1,2) show ?case by (simp add: run_def)
next
  case (snoc x evs)
  obtain now e where x: "x = (now, e)" by (cases x)
  with snoc have "engineOk (run evs s)" "allDoneLogs (run evs s) = 0" "engine_event e"
    by simp_all
  then have "engineOk (step now e (run evs s)) \<and> allDoneLogs (step now e (run evs s)) = 0"
    by (rule engineOk_step)
  with x show ?case by (simp add: run_snoc)
qed

section \<open>The simulation comes to an end\<close>

lemma sum_list_update:
  "i < length xs \<Longrightarrow>
   sum_list (map f (xs[i := y])) + f (xs ! i) = sum_list (map f xs) + (f y :: nat)"
proof (induction xs arbitrary: i)
  case Nil
  then show ?case by simp
next
  case (Cons x xs)
  show ?case
  proof (cases i)
    case 0
    then show ?thesis by simp
  next
    case (Suc k)
    with Cons.prems have "k < length xs" by simp
    from Cons.IH [OF this] Suc show ?thesis by simp
  qed
qed

lemma remaining_advance:
  assumes "status t = IN_PROGRESS" "5 \<le> inc"
  shows "remaining (if 100 \<le> min (progress t + inc) 100
                    then t\<lparr>progress := min (progress t + inc) 100, status := COMPLETED\<rparr>
                    else t\<lparr>progress := min (progress t + inc) 100\<rparr>) < remaining t"
proof (cases "100 \<le> progress t + inc")
  case True
  have "0 < (104 - progress t) div 5" if "\<not> 100 \<le> progress t"
    using that by (simp add: pos_imp_zdiv_pos_iff)
  with True assms show ?thesis by (simp add: remaining_def)
next
  case False
  with assms have p: "progress t < 95" by simp
  from False have "min (progress t + inc) 100 = progress t + inc" by simp
  moreover have "nat ((104 - (progress t + inc)) div 5) < nat ((104 - progress t) div 5)"
    using assms(2) p by (simp add: nat_less_iff) presburger
  ultimately show ?thesis using assms False p by (simp add: remaining_def)
qed

lemma totalRemaining_zero:
  assumes "\<forall>t \<in> set ts. status t \<noteq> REVIEW"
  shows "totalRemaining ts = 0 \<longleftrightarrow> allCompleted ts"
  using assms
proof (induction ts)
  case Nil
  show ?case by (simp add: totalRemaining_def allCompleted_def)
next
  case (Cons t ts)
  have "remaining t = 0 \<longleftrightarrow> status t = COMPLETED"
    using Cons.prems by (cases "status t") (auto simp: remaining_def nat_eq_iff2)
  with Cons show ?case by (simp add: totalRemaining_def allCompleted_def)
qed

lemma upd_statuses:
  assumes "\<forall>t \<in> set ts. status t \<noteq> REVIEW"
  shows "\<forall>t \<in> set (upd inc ts). status t \<noteq> REVIEW"
proof -
  have up: "\<forall>t \<in> set (ts[i := y]). status t \<noteq> REVIEW" if "status y \<noteq> REVIEW" for i y
    using assms that by (auto dest: set_update_subset_insert [THEN subsetD])
  show ?thesis
  proof (cases "findIndex (\<lambda>t. status t = IN_PROGRESS) ts")
    case None
    show ?thesis
    proof (cases "findIndex (\<lambda>t. status t = PENDING) ts")
      case n: None
      with None assms show ?thesis by (simp add: upd_def tickUpdater_def)
    next
      case (Some i)
      have "\<forall>t \<in> set (ts[i := (ts ! i)\<lparr>status := IN_PROGRESS, progress := 5\<rparr>]).
          status t \<noteq> REVIEW"
        by (rule up) simp
      with None Some show ?thesis by (simp add: upd_def tickUpdater_def)
    qed
  next
    case (Some i)
    then have ip: "status (ts ! i) = IN_PROGRESS" by (rule findIndex_Some_holds)
    let ?p = "min (progress (ts ! i) + inc) 100"
    have "\<forall>t \<in> set (ts[i := (ts ! i)\<lparr>progress := ?p, status := COMPLETED\<rparr>]).
        status t \<noteq> REVIEW"
      by (rule up) simp
    moreover have "\<forall>t \<in> set (ts[i := (ts ! i)\<lparr>progress := ?p\<rparr>]). status t \<noteq> REVIEW"
      using ip by (intro up) simp
    ultimately show ?thesis using Some by (simp add: upd_def tickUpdater_def Let_def)
  qed
qed

lemma upd_decreases:
  assumes noreview: "\<forall>t \<in> set ts. status t \<noteq> REVIEW" and inc: "5 \<le> inc"
    and busy: "\<not> allCompleted ts"
  shows "totalRemaining (upd inc ts) < totalRemaining ts"
proof (cases "findIndex (\<lambda>t. status t = IN_PROGRESS) ts")
  case None
  show ?thesis
  proof (cases "findIndex (\<lambda>t. status t = PENDING) ts")
    case n: None
    have "status t = COMPLETED" if "t \<in> set ts" for t
      using that None n noreview by (cases "status t") (auto simp: findIndex_None_iff)
    with busy show ?thesis by (simp add: allCompleted_def list_all_iff)
  next
    case (Some i)
    then have less: "i < length ts" and pe: "status (ts ! i) = PENDING"
      by (auto dest: findIndex_Some_less findIndex_Some_holds)
    let ?y = "(ts ! i)\<lparr>status := IN_PROGRESS, progress := 5\<rparr>"
    from None Some have u: "upd inc ts = ts[i := ?y]" by (simp add: upd_def tickUpdater_def)
    have "remaining ?y = 19" by (simp add: remaining_def)
    moreover from pe have "remaining (ts ! i) = 20" by (simp add: remaining_def)
    ultimately show ?thesis
      using sum_list_update [OF less, of remaining ?y] unfolding u totalRemaining_def by simp
  qed
next
  case (Some i)
  then have less: "i < length ts" and ip: "status (ts ! i) = IN_PROGRESS"
    by (auto dest: findIndex_Some_less findIndex_Some_holds)
  let ?p = "min (progress (ts ! i) + inc) 100"
  let ?y = "if 100 \<le> ?p then (ts ! i)\<lparr>progress := ?p, status := COMPLETED\<rparr>
            else (ts ! i)\<lparr>progress := ?p\<rparr>"
  from Some have u: "upd inc ts = ts[i := ?y]"
    by (simp add: upd_def tickUpdater_def Let_def)
  from ip inc have "remaining ?y < remaining (ts ! i)" by (rule remaining_advance)
  then show ?thesis
    using sum_list_update [OF less, of remaining ?y] unfolding u totalRemaining_def by simp
qed

lemma upds_Cons: "upds (inc # incs) ts = upds incs (upd inc ts)"
  by (simp add: upds_def)

lemma upds_allCompleted: "allCompleted ts \<Longrightarrow> upds incs ts = ts"
  by (induction incs) (simp_all add: upds_def upd_allCompleted)

lemma upds_terminates:
  assumes "\<forall>t \<in> set ts. status t \<noteq> REVIEW" "\<forall>inc \<in> set incs. 5 \<le> inc"
    "totalRemaining ts \<le> length incs"
  shows "allCompleted (upds incs ts)"
  using assms
proof (induction incs arbitrary: ts)
  case Nil
  then show ?case by (simp add: upds_def totalRemaining_zero)
next
  case (Cons inc incs)
  show ?case
  proof (cases "allCompleted ts")
    case True
    then show ?thesis by (simp add: upds_allCompleted)
  next
    case False
    with Cons.prems have "totalRemaining (upd inc ts) < totalRemaining ts"
      by (intro upd_decreases) simp_all
    with Cons.prems have "totalRemaining (upd inc ts) \<le> length incs" by simp
    moreover from Cons.prems have "\<forall>t \<in> set (upd inc ts). status t \<noteq> REVIEW"
      by (intro upd_statuses) simp
    moreover from Cons.prems have "\<forall>inc \<in> set incs. 5 \<le> inc" by simp
    ultimately have "allCompleted (upds incs (upd inc ts))" by (intro Cons.IH)
    then show ?thesis by (simp add: upds_Cons)
  qed
qed

lemma totalRemaining_pending:
  "\<forall>t \<in> set ts. status t = PENDING \<Longrightarrow> totalRemaining ts = 20 * length ts"
  by (induction ts) (simp_all add: totalRemaining_def remaining_def)

lemma completedCount_all: "allCompleted ts \<Longrightarrow> completedCount ts = length ts"
  by (induction ts) (simp_all add: completedCount_def allCompleted_def)

lemma length_upds: "length (upds incs ts) = length ts"
  by (induction incs arbitrary: ts) (simp_all add: upds_def length_upd)

section \<open>The completion log of the simulation\<close>

lemma allCompleted_withoutLogs:
  "allCompleted ts = list_all (\<lambda>p. fst p = COMPLETED) (withoutLogs ts)"
  by (induction ts) (simp_all add: allCompleted_def withoutLogs_def)

lemma simulation_cycles:
  assumes "ts \<noteq> []"
  shows "allDoneLogs (cycles xs (simulationOn ts)) = 0 \<and>
         withoutLogs (tasks (cycles xs (simulationOn ts))) =
           withoutLogs (upds (map fst xs) ts) \<and>
         isRunning (cycles xs (simulationOn ts)) =
           (\<not> allCompleted (tasks (cycles xs (simulationOn ts))))"
proof -
  from simulationOn_ready [OF assms]
  have r: "engineReady (simulationOn ts)" and z: "allDoneLogs (simulationOn ts) = 0"
    and t: "tasks (simulationOn ts) = ts"
    by simp_all
  from cycles_ready [OF r z, of xs] t engineReady_running [of "cycles xs (simulationOn ts)"]
  show ?thesis by (simp add: upds_def foldl_map)
qed

text \<open>
  Claim C3, as far as the code goes. Start the simulation on any non-empty task list (in
  particular on N pending tasks, N at least 1).
  \<^item> Whatever engine events follow, in any order (firings of the interval with any draws,
    arrivals of log lines), the global log never holds an ``All tasks completed
    successfully.'' entry: when the last task completes, the effect sees that all tasks
    are completed, clears \<^verbatim>\<open>isRunning\<close> and installs no interval, so the branch of the
    updater that writes the entry is never reached.
  \<^item> Run cycle after cycle, the tasks develop as the updater alone prescribes, and the
    engine is running exactly as long as some task is not completed.
  \<^item> On N pending tasks, with increments of at least 5 (the code draws them from 5 to
    19), 20 N cycles are enough: then exactly N tasks are completed and the engine has
    stopped.
\<close>

theorem simulation_never_logs_completion:
  assumes "ts \<noteq> []" and "list_all (\<lambda>(now, e). engine_event e) evs"
  shows "allDoneLogs (run evs (simulationOn ts)) = 0 \<and>
         allDoneLogs (cycles xs (simulationOn ts)) = 0 \<and>
         withoutLogs (tasks (cycles xs (simulationOn ts))) =
           withoutLogs (upds (map fst xs) ts) \<and>
         isRunning (cycles xs (simulationOn ts)) =
           (\<not> allCompleted (tasks (cycles xs (simulationOn ts)))) \<and>
         (list_all (\<lambda>t. status t = PENDING) ts \<and> list_all (\<lambda>x. 5 \<le> fst x) xs \<and>
          20 * length ts \<le> length xs \<longrightarrow>
            completedCount (tasks (cycles xs (simulationOn ts))) = length ts \<and>
            \<not> isRunning (cycles xs (simulationOn ts)))"
proof -
  let ?s = "cycles xs (simulationOn ts)"
  from simulationOn_ready [OF assms(1)]
  have "engineOk (simulationOn ts)" and z: "allDoneLogs (simulationOn ts) = 0"
    by (simp_all add: engineReady_Ok)
  then have any: "allDoneLogs (run evs (simulationOn ts)) = 0"
    using assms(2) engineOk_run [of "simulationOn ts" evs] by simp
  note c = simulation_cycles [OF assms(1), of xs]
  have fin: "completedCount (tasks ?s) = length ts \<and> \<not> isRunning ?s"
    if pe: "list_all (\<lambda>t. status t = PENDING) ts" and incs: "list_all (\<lambda>x. 5 \<le> fst x) xs"
      and len: "20 * length ts \<le> length xs"
  proof -
    from pe have p: "\<forall>t \<in> set ts. status t = PENDING" by (simp add: list_all_iff)
    then have "\<forall>t \<in> set ts. status t \<noteq> REVIEW" by simp
    moreover from incs have "\<forall>inc \<in> set (map fst xs). 5 \<le> inc" by (auto simp: list_all_iff)
    moreover from p len have "totalRemaining ts \<le> length (map fst xs)"
      by (simp add: totalRemaining_pending)
    ultimately have "allCompleted (upds (map fst xs) ts)" by (rule upds_terminates)
    with c have all: "allCompleted (tasks ?s)" by (simp add: allCompleted_withoutLogs)
    from c have "length (withoutLogs (tasks ?s)) = length (withoutLogs (upds (map fst xs) ts))"
      by simp
    then have "length (tasks ?s) = length ts" by (simp add: withoutLogs_def length_upds)
    with all c show ?thesis by (simp add: completedCount_all)
  qed
  from any c fin show ?thesis by blast
qed

theorem simulation_never_logs_completion_witness:
  "[plannedTask ''t1'' ''Setup'' '''' High] \<noteq> [] \<and>
   list_all (\<lambda>(now, e). engine_event e) demoEvents \<and>
   list_all (\<lambda>t. status t = PENDING) [plannedTask ''t1'' ''Setup'' '''' High] \<and>
   list_all (\<lambda>x. 5 \<le> fst x) (replicate 20 (19 :: int, 0 :: Time, localLog)) \<and>
   20 * length [plannedTask ''t1'' ''Setup'' '''' High] \<le>
     length (replicate 20 (19 :: int, 0 :: Time, localLog)) \<and>
   allDoneLogs (run demoEvents (simulationOn [plannedTask ''t1'' ''Setup'' '''' High])) = 0 \<and>
   completedCount (tasks (cycles (replicate 20 (19, 0, localLog))
     (simulationOn [plannedTask ''t1'' ''Setup'' '''' High]))) = 1 \<and>
   \<not> isRunning (cycles (replicate 20 (19, 0, localLog))
     (simulationOn [plannedTask ''t1'' ''Setup'' '''' High])) \<and>
   allDoneLogs (cycles (replicate 20 (19, 0, localLog))
     (simulationOn [plannedTask ''t1'' ''Setup'' '''' High])) = 0"
proof -
  let ?ts = "[plannedTask ''t1'' ''Setup'' '''' High]"
  let ?xs = "replicate 20 (19 :: int, 0 :: Time, localLog)"
  have ne: "?ts \<noteq> []" by simp
  have ev: "list_all (\<lambda>(now, e). engine_event e) demoEvents" by code_simp
  have pe: "list_all (\<lambda>t. status t = PENDING) ?ts" by (simp add: plannedTask_def)
  have incs: "list_all (\<lambda>x. 5 \<le> fst x) ?xs" by (simp add: list_all_iff)
  have len: "20 * length ?ts \<le> length ?xs" by simp
  from simulation_never_logs_completion [OF ne ev, of ?xs] pe incs len
  have "allDoneLogs (run demoEvents (simulationOn ?ts)) = 0"
    and "allDoneLogs (cycles ?xs (simulationOn ?ts)) = 0"
    and "completedCount (tasks (cycles ?xs (simulationOn ?ts))) = length ?ts"
    and "\<not> isRunning (cycles ?xs (simulationOn ?ts))"
    by blast+
  with ne ev pe incs len show ?thesis by simp
qed

section \<open>The scenario with the increment fixed at 20\<close>

text \<open>
  Claim C7, as stated, fails at its first step: after five cycles with increment 20 on
  three pending tasks, the first task is still in progress, at 85.
\<close>

theorem fixed_increment_tick_five_counterexample:
  "withoutLogs (tasks (cycles (replicate 5 (20, 0, localLog)) (simulationOn threePending))) =
     [(IN_PROGRESS, 85), (PENDING, 0), (PENDING, 0)]"
proof -
  have "threePending \<noteq> []" by (simp add: threePending_def)
  from simulation_cycles [OF this, of "replicate 5 (20, 0, localLog)"]
  have "withoutLogs (tasks (cycles (replicate 5 (20, 0, localLog)) (simulationOn threePending))) =
      withoutLogs (upds (replicate 5 20) threePending)"
    by simp
  also have "\<dots> = [(IN_PROGRESS, 85), (PENDING, 0), (PENDING, 0)]" by code_simp
  finally show ?thesis .
qed

text \<open>
  Claim C7, amended. With the increment fixed at 20 and three pending tasks, whatever the
  clock and the log provider return: the first tick promotes task 1 with progress 5, so it
  is at 85 after tick 5 and reaches completed with tick 6; task 2 becomes in progress with
  tick 7; task 3 is the one in progress after tick 17; after tick 18, and still after tick
  20, all three tasks are completed, and the engine has stopped.
\<close>

theorem fixed_increment_scenario:
  "withoutLogs (tasks (cycles (replicate 5 (20, now, ld)) (simulationOn threePending))) =
     [(IN_PROGRESS, 85), (PENDING, 0), (PENDING, 0)] \<and>
   withoutLogs (tasks (cycles (replicate 6 (20, now, ld)) (simulationOn threePending))) =
     [(COMPLETED, 100), (PENDING, 0), (PENDING, 0)] \<and>
   withoutLogs (tasks (cycles (replicate 7 (20, now, ld)) (simulationOn threePending))) =
     [(COMPLETED, 100), (IN_PROGRESS, 5), (PENDING, 0)] \<and>
   withoutLogs (tasks (cycles (replicate 17 (20, now, ld)) (simulationOn threePending))) =
     [(COMPLETED, 100), (COMPLETED, 100), (IN_PROGRESS, 85)] \<and>
   withoutLogs (tasks (cycles (replicate 18 (20, now, ld)) (simulationOn threePending))) =
     [(COMPLETED, 100), (COMPLETED, 100), (COMPLETED, 100)] \<and>
   withoutLogs (tasks (cycles (replicate 20 (20, now, ld)) (simulationOn threePending))) =
     [(COMPLETED, 100), (COMPLETED, 100), (COMPLETED, 100)] \<and>
   \<not> isRunning (cycles (replicate 18 (20, now, ld)) (simulationOn threePending)) \<and>
   \<not> isRunning (cycles (replicate 20 (20, now, ld)) (simulationOn threePending))"
proof -
  have ne: "threePending \<noteq> []" by (simp add: threePending_def)
  have w: "withoutLogs (tasks (cycles (replicate n (20, now, ld)) (simulationOn threePending))) =
      withoutLogs (upds (replicate n 20) threePending)"
    for n
    using simulation_cycles [OF ne, of "replicate n (20, now, ld)"] by simp
  have r: "isRunning (cycles (replicate n (20, now, ld)) (simulationOn threePending)) =
      (\<not> list_all (\<lambda>p. fst p = COMPLETED) (withoutLogs (upds (replicate n 20) threePending)))"
    for n
    using simulation_cycles [OF ne, of "replicate n (20, now, ld)"]
    by (simp add: allCompleted_withoutLogs w)
  have 5: "withoutLogs (upds (replicate 5 20) threePending) =
      [(IN_PROGRESS, 85), (PENDING, 0), (PENDING, 0)]" by code_simp
  have 6: "withoutLogs (upds (replicate 6 20) threePending) =
      [(COMPLETED, 100), (PENDING, 0), (PENDING, 0)]" by code_simp
  have 7: "withoutLogs (upds (replicate 7 20) threePending) =
      [(COMPLETED, 100), (IN_PROGRESS, 5), (PENDING, 0)]" by code_simp
  have 17: "withoutLogs (upds (replicate 17 20) threePending) =
      [(COMPLETED, 100), (COMPLETED, 100), (IN_PROGRESS, 85)]" by code_simp
  have 18: "withoutLogs (upds (replicate 18 20) threePending) =
      [(COMPLETED, 100), (COMPLETED, 100), (COMPLETED, 100)]" by code_simp
  have 20: "withoutLogs (upds (replicate 20 20) threePending) =
      [(COMPLETED, 100), (COMPLETED, 100), (COMPLETED, 100)]" by code_simp
  show ?thesis unfolding w r 5 6 7 17 18 20 by simp
qed

section \<open>The global log buffer is a bounded FIFO\<close>

text \<open>
  Claim C6. Whatever is appended to the initially empty global log, the buffer never holds
  more than 100 entries, and it holds exactly the last 100 entries appended, in the order
  of appending. After 101 appends the buffer is the appended sequence without its first
  entry: the newest entry is its last element, and the first-appended entry is gone
  (it can only be found there if the same entry was appended again later). The bound also
  holds from any buffer that respects it.
\<close>

theorem global_log_bounded_fifo:
  "length (appendLogs es []) \<le> 100 \<and>
   appendLogs es [] = slice_last 100 es \<and>
   (length buf \<le> 100 \<longrightarrow> length (appendLogs es buf) \<le> 100) \<and>
   (length es = 101 \<longrightarrow>
      appendLogs es [] = tl es \<and> last (appendLogs es []) = last es \<and>
      (distinct es \<longrightarrow> hd es \<notin> set (appendLogs es [])))"
proof -
  have bound: "length (appendLogs es []) \<le> 100"
    by (rule length_appendLogs_le) simp
  have fifo: "appendLogs es [] = slice_last 100 es"
    by (rule appendLogs_from_empty)
  have full: "appendLogs es [] = tl es \<and> last (appendLogs es []) = last es \<and>
      (distinct es \<longrightarrow> hd es \<notin> set (appendLogs es []))" if len: "length es = 101"
  proof -
    from len obtain e rest where es: "es = e # rest" by (cases es) auto
    with len have rest: "length rest = 100" by simp
    then have "rest \<noteq> []" by auto
    with es len show ?thesis by (simp add: appendLogs_from_empty slice_last_def)
  qed
  from bound fifo full length_appendLogs_le [of buf es] show ?thesis by blast
qed

theorem global_log_bounded_fifo_witness:
  "length (replicate 100 \<lparr>timestamp = 0, message = ''old'', severity = Info\<rparr>) \<le> 100 \<and>
   length (appendLogs [\<lparr>timestamp = 1, message = ''new'', severity = Info\<rparr>]
             (replicate 100 \<lparr>timestamp = 0, message = ''old'', severity = Info\<rparr>)) \<le> 100 \<and>
   length (map (\<lambda>n. \<lparr>timestamp = n, message = ''line'', severity = Info\<rparr>) [0..<101]) = 101 \<and>
   distinct (map (\<lambda>n. \<lparr>timestamp = n, message = ''line'', severity = Info\<rparr>) [0..<101]) \<and>
   \<lparr>timestamp = 0, message = ''line'', severity = Info\<rparr> \<notin>
     set (appendLogs (map (\<lambda>n. \<lparr>timestamp = n, message = ''line'', severity = Info\<rparr>) [0..<101]) []) \<and>
   last (appendLogs (map (\<lambda>n. \<lparr>timestamp = n, message = ''line'', severity = Info\<rparr>) [0..<101]) []) =
     \<lparr>timestamp = 100, message = ''line'', severity = Info\<rparr>"
proof -
  let ?old = "\<lparr>timestamp = 0, message = ''old'', severity = Info\<rparr>"
  let ?new = "\<lparr>timestamp = 1, message = ''new'', severity = Info\<rparr>"
  let ?es = "map (\<lambda>n. \<lparr>timestamp = n, message = ''line'', severity = Info\<rparr>) [0..<101]"
  have len: "length ?es = 101" by simp
  have dist: "distinct ?es" by (simp add: distinct_map inj_on_def)
  have hd: "hd ?es = \<lparr>timestamp = 0, message = ''line'', severity = Info\<rparr>"
    by (simp add: hd_map upt_conv_Cons)
  have lst: "last ?es = \<lparr>timestamp = 100, message = ''line'', severity = Info\<rparr>"
    by (simp add: last_map)
  have old: "length (replicate 100 ?old) \<le> 100" by simp
  from global_log_bounded_fifo [of "[?new]" "replicate 100 ?old"] old
  have a: "length (appendLogs [?new] (replicate 100 ?old)) \<le> 100" by blast
  from global_log_bounded_fifo [of ?es "[]"] len dist
  have b: "hd ?es \<notin> set (appendLogs ?es []) \<and> last (appendLogs ?es []) = last ?es"
    by blast
  from old a len dist b show ?thesis unfolding hd lst by blast
qed

section \<open>A tick changes at most one task\<close>

text \<open>
  Claim C10. The updater of a tick returns an array of the same length in which every task
  other than the selected one (the first task in progress, or the first pending task when
  none is in progress) is the task that was there before, in all its fields.
\<close>

theorem tick_changes_selected_task_only:
  "length (fst (tickUpdater running inc ts)) = length ts \<and>
   (\<forall>j. selectedIndex ts \<noteq> Some j \<longrightarrow> fst (tickUpdater running inc ts) ! j = ts ! j)"
  by (simp add: length_tickUpdater tickUpdater_frame)

theorem tick_changes_selected_task_only_witness:
  "selectedIndex
     [plannedTask ''a'' ''Setup'' '''' High, plannedTask ''b'' ''Core'' '''' Medium,
      plannedTask ''c'' ''Tests'' '''' Low] \<noteq> Some 2 \<and>
   fst (tickUpdater True 7
     [plannedTask ''a'' ''Setup'' '''' High, plannedTask ''b'' ''Core'' '''' Medium,
      plannedTask ''c'' ''Tests'' '''' Low]) ! 2 = plannedTask ''c'' ''Tests'' '''' Low"
proof -
  let ?ts = "[plannedTask ''a'' ''Setup'' '''' High, plannedTask ''b'' ''Core'' '''' Medium,
      plannedTask ''c'' ''Tests'' '''' Low]"
  have sel: "selectedIndex ?ts \<noteq> Some 2"
    by (simp add: selectedIndex_def plannedTask_def)
  with tick_changes_selected_task_only [of True 7 ?ts]
  have "fst (tickUpdater True 7 ?ts) ! 2 = ?ts ! 2" by blast
  with sel show ?thesis by simp
qed

end
